theory Spec2Isabelle
  imports Main "HOL-Library.Word" "HOL-Library.Sublist" "HOL-Library.AList"
begin

section \<open>JavaScript strings\<close>

text \<open>
  A JavaScript string is a sequence of UTF-16 code units. The regular expressions of the
  converter carry no \<^verbatim>\<open>u\<close> flag, so they too work on code units. String literals of the
  source are ASCII and are written \<open>js ''...''\<close>.
\<close>

type_synonym jschar = "16 word"
type_synonym jsstring = "jschar list"

definition js :: "string \<Rightarrow> jsstring" where
  "js s = map of_char s"

definition LF :: jschar where
  "LF = 0x0A"

text \<open>
  The class \<^verbatim>\<open>\s\<close> of a regular expression and the characters removed by
  \<^verbatim>\<open>String.prototype.trim\<close> are the same set: WhiteSpace and LineTerminator of ECMAScript
  (TAB, LF, VT, FF, CR, SP, NBSP, U+1680, U+2000..U+200A, U+2028, U+2029, U+202F, U+205F,
  U+3000, U+FEFF).
\<close>

definition is_space :: "jschar \<Rightarrow> bool" where
  "is_space c \<longleftrightarrow>
     c \<in> {0x09, 0x0A, 0x0B, 0x0C, 0x0D, 0x20, 0xA0, 0x1680, 0x2028, 0x2029, 0x202F, 0x205F,
          0x3000, 0xFEFF}
     \<or> (0x2000 \<le> c \<and> c \<le> 0x200A)"

definition trim :: "jsstring \<Rightarrow> jsstring" where
  "trim s = rev (dropWhile is_space (rev (dropWhile is_space s)))"

text \<open>The decimal numeral of a template literal \<^verbatim>\<open>${n}\<close> for a non-negative integer.\<close>

fun digits :: "nat \<Rightarrow> jsstring" where
  "digits n =
     (if n < 10 then [of_nat (48 + n)] else digits (n div 10) @ [of_nat (48 + n mod 10)])"

declare digits.simps [simp del]

text \<open>\<open>find_sub p s\<close> is the offset of the first occurrence of \<open>p\<close> in \<open>s\<close>.\<close>

fun find_sub :: "'a list \<Rightarrow> 'a list \<Rightarrow> nat option" where
  "find_sub p [] = (if p = [] then Some 0 else None)"
| "find_sub p (x # xs) =
     (if prefix p (x # xs) then Some 0 else map_option Suc (find_sub p xs))"

lemma find_sub_SomeD:
  "find_sub p s = Some n \<Longrightarrow> n + length p \<le> length s \<and> prefix p (drop n s)"
proof (induction s arbitrary: n)
  case Nil
  then show ?case by (simp split: if_splits)
next
  case (Cons x xs)
  show ?case
  proof (cases "prefix p (x # xs)")
    case True
    with Cons.prems have "n = 0" by simp
    with True prefix_length_le[OF True] show ?thesis by simp
  next
    case False
    with Cons.prems obtain k where k: "find_sub p xs = Some k" "n = Suc k" by auto
    from Cons.IH[OF k(1)] k(2) show ?thesis by simp
  qed
qed

lemma find_sub_first:
  "find_sub p s = Some n \<Longrightarrow> j < n \<Longrightarrow> \<not> prefix p (drop j s)"
proof (induction s arbitrary: n j)
  case Nil
  then show ?case by (simp split: if_splits)
next
  case (Cons x xs)
  from Cons.prems have np: "\<not> prefix p (x # xs)" by (auto split: if_splits)
  with Cons.prems obtain k where k: "find_sub p xs = Some k" "n = Suc k" by auto
  show ?case
  proof (cases j)
    case 0
    with np show ?thesis by simp
  next
    case (Suc j')
    with Cons.prems k have "j' < k" by simp
    from Cons.IH[OF k(1) this] Suc show ?thesis by simp
  qed
qed

text \<open>What \<open>find_sub\<close> finds, in terms of \<open>prefix\<close> and \<open>sublist\<close>.\<close>

lemma find_sub_None_iff: "find_sub p s = None \<longleftrightarrow> (\<forall>i. \<not> prefix p (drop i s))"
proof (induction s)
  case Nil
  then show ?case by auto
next
  case (Cons x xs)
  show ?case
  proof
    assume n: "find_sub p (x # xs) = None"
    then have np: "\<not> prefix p (x # xs)" and r: "find_sub p xs = None" by (auto split: if_splits)
    show "\<forall>i. \<not> prefix p (drop i (x # xs))"
    proof
      fix i show "\<not> prefix p (drop i (x # xs))"
        using np r Cons.IH by (cases i) auto
    qed
  next
    assume a: "\<forall>i. \<not> prefix p (drop i (x # xs))"
    from a[rule_format, of 0] have np: "\<not> prefix p (x # xs)" by simp
    have "\<forall>i. \<not> prefix p (drop i xs)"
    proof
      fix i from a[rule_format, of "Suc i"] show "\<not> prefix p (drop i xs)" by simp
    qed
    with Cons.IH np show "find_sub p (x # xs) = None" by simp
  qed
qed

lemma find_sub_SomeI:
  assumes "prefix p (drop n s)" and "\<And>j. j < n \<Longrightarrow> \<not> prefix p (drop j s)"
  shows "find_sub p s = Some n"
proof (cases "find_sub p s")
  case None
  with assms(1) show ?thesis by (simp add: find_sub_None_iff)
next
  case (Some m)
  from find_sub_SomeD[OF Some] have pm: "prefix p (drop m s)" by simp
  from find_sub_first[OF Some] assms(1) have "\<not> n < m" by blast
  moreover from assms(2) pm have "\<not> m < n" by blast
  ultimately show ?thesis using Some by simp
qed

lemma find_sub_None_sublist: "find_sub p s = None \<longleftrightarrow> \<not> sublist p s"
proof
  assume n: "find_sub p s = None"
  show "\<not> sublist p s"
  proof
    assume "sublist p s"
    then obtain a b where "s = a @ p @ b" by (auto simp: sublist_def)
    then have "prefix p (drop (length a) s)" by simp
    with n show False by (simp add: find_sub_None_iff)
  qed
next
  assume ns: "\<not> sublist p s"
  show "find_sub p s = None"
  proof (cases "find_sub p s")
    case (Some n)
    from find_sub_SomeD[OF Some] have "prefix p (drop n s)" by simp
    then have "sublist p (drop n s)" by (rule prefix_imp_sublist)
    moreover have "sublist (drop n s) s" by simp
    ultimately have "sublist p s" by (rule sublist_order.order.trans)
    with ns show ?thesis by simp
  qed simp
qed

lemma prefix_take_iff: "prefix t u \<longleftrightarrow> length t \<le> length u \<and> take (length t) u = t"
proof
  assume "prefix t u"
  then show "length t \<le> length u \<and> take (length t) u = t" by (auto simp: prefix_def)
next
  assume a: "length t \<le> length u \<and> take (length t) u = t"
  have "prefix (take (length t) u) u" by (rule take_is_prefix)
  with a show "prefix t u" by simp
qed

lemma prefix_append_short:
  "length t \<le> length u \<Longrightarrow> prefix t (u @ x) \<longleftrightarrow> prefix t u"
  by (simp add: prefix_take_iff)

lemma prefix_drop_left:
  assumes "i + length t \<le> length a"
  shows "prefix t (drop i (a @ x)) \<longleftrightarrow> prefix t (drop i a)"
proof -
  from assms have d: "drop i (a @ x) = drop i a @ x" and l: "length t \<le> length (drop i a)" by simp_all
  show ?thesis unfolding d using l by (rule prefix_append_short)
qed

lemma prefix_drop_right:
  "prefix t (drop (length a + j) (a @ b)) \<longleftrightarrow> prefix t (drop j b)"
  by simp

section \<open>The diagram fence pattern\<close>

text \<open>
  \<^verbatim>\<open>/```mermaid\s*\n([\s\S]*?)```/g\<close> (the converter's \<^verbatim>\<open>extractMermaidDiagrams\<close>; its
  \<^verbatim>\<open>convertMarkdownToHtml\<close> uses the same pattern without the group).

  \<open>fence_at s\<close> is the match anchored at the start of \<open>s\<close>, as the backtracking matcher
  finds it: the literal \<^verbatim>\<open>```mermaid\<close>; then \<^verbatim>\<open>\s*\<close> takes the longest run of white
  space and gives characters back until a line feed follows, so \<^verbatim>\<open>\s*\n\<close> ends after the
  last line feed of that run; then the lazy \<^verbatim>\<open>[\s\S]*?\<close> stops at the first \<^verbatim>\<open>```\<close>.
  Backtracking further into the run cannot help: every character given back is white
  space, so no closing \<^verbatim>\<open>```\<close> starts earlier (theorem \<open>fence_at_backtrack\<close> in the last
  section proves this against a backtracking matcher). The result is \<^verbatim>\<open>match[0]\<close> and
  \<^verbatim>\<open>match[1]\<close>.
\<close>

definition fence_at :: "jsstring \<Rightarrow> (jsstring \<times> jsstring) option" where
  "fence_at s =
     (if \<not> prefix (js ''```mermaid'') s then None
      else let rest = drop 10 s;
               ws = takeWhile is_space rest
           in if LF \<notin> set ws then None
              else let k = length ws - length (takeWhile (\<lambda>c. c \<noteq> LF) (rev ws));
                       body_on = drop k rest
                   in case find_sub (js ''```'') body_on of
                        None \<Rightarrow> None
                      | Some n \<Rightarrow> Some (take (10 + k + n + 3) s, take n body_on))"

text \<open>
  The unanchored search of \<^verbatim>\<open>RegExp.prototype.exec\<close>: the first position, from \<open>i\<close> on,
  where the anchored match succeeds.
\<close>

fun search :: "(jsstring \<Rightarrow> 'm option) \<Rightarrow> nat \<Rightarrow> jsstring \<Rightarrow> (nat \<times> 'm) option" where
  "search h i [] = map_option (Pair i) (h [])"
| "search h i (x # xs) =
     (case h (x # xs) of Some m \<Rightarrow> Some (i, m) | None \<Rightarrow> search h (Suc i) xs)"

record fence_match =
  index :: nat
  whole :: jsstring
  group1 :: jsstring

text \<open>
  \<^verbatim>\<open>pattern.exec(s)\<close> of a global pattern reads and writes \<^verbatim>\<open>pattern.lastIndex\<close>: the
  search starts there, a match moves it to the end of the match, a failure resets it
  to 0. The model takes \<open>lastIndex\<close> and returns the match with the new \<open>lastIndex\<close>.
\<close>

definition fence_exec :: "jsstring \<Rightarrow> nat \<Rightarrow> fence_match option \<times> nat" where
  "fence_exec s lastIndex =
     (if length s < lastIndex then (None, 0)
      else case search fence_at lastIndex (drop lastIndex s) of
             None \<Rightarrow> (None, 0)
           | Some (i, (w, b)) \<Rightarrow> (Some \<lparr>index = i, whole = w, group1 = b\<rparr>, i + length w))"

lemma search_SomeD:
  "search h i xs = Some (k, r) \<Longrightarrow> i \<le> k \<and> k \<le> i + length xs \<and> h (drop (k - i) xs) = Some r"
proof (induction xs arbitrary: i)
  case Nil
  then show ?case by auto
next
  case (Cons x xs)
  show ?case
  proof (cases "h (x # xs)")
    case None
    with Cons.prems have "search h (Suc i) xs = Some (k, r)" by simp
    from Cons.IH[OF this] have ih: "Suc i \<le> k" "k \<le> Suc i + length xs"
      "h (drop (k - Suc i) xs) = Some r" by simp_all
    from ih(1) have "k - i = Suc (k - Suc i)" by simp
    with ih show ?thesis by simp
  next
    case (Some m)
    with Cons.prems show ?thesis by simp
  qed
qed

lemma search_first:
  "search h i xs = Some (k, r) \<Longrightarrow> j < k - i \<Longrightarrow> h (drop j xs) = None"
proof (induction xs arbitrary: i j)
  case Nil
  then show ?case by auto
next
  case (Cons x xs)
  show ?case
  proof (cases "h (x # xs)")
    case None
    with Cons.prems have s: "search h (Suc i) xs = Some (k, r)" by simp
    show ?thesis
    proof (cases j)
      case 0
      with None show ?thesis by simp
    next
      case (Suc j')
      with Cons.prems have "j' < k - Suc i" by simp
      from Cons.IH[OF s this] Suc show ?thesis by simp
    qed
  next
    case (Some m)
    with Cons.prems show ?thesis by simp
  qed
qed

lemma length_js [simp]: "length (js s) = length s"
  by (simp add: js_def)

lemma fence_at_SomeD:
  assumes "fence_at s = Some (w, b)"
  shows "w = take (length w) s" and "13 \<le> length w" and "length w \<le> length s"
    and "prefix (js ''```mermaid'') w" and "suffix (js ''```'') w"
proof -
  define rest where "rest = drop 10 s"
  define ws where "ws = takeWhile is_space rest"
  define k where "k = length ws - length (takeWhile (\<lambda>c. c \<noteq> LF) (rev ws))"
  define body_on where "body_on = drop k rest"
  from assms have p: "prefix (js ''```mermaid'') s"
    by (auto simp: fence_at_def split: if_splits)
  from assms p obtain n where n: "find_sub (js ''```'') body_on = Some n"
    and w: "w = take (10 + k + n + 3) s"
    by (auto simp: fence_at_def Let_def rest_def ws_def k_def body_on_def
        split: if_splits option.splits)
  from find_sub_SomeD[OF n] have le: "n + 3 \<le> length body_on"
    and cl: "prefix (js ''```'') (drop n body_on)" by simp_all
  have "k \<le> length ws" by (simp add: k_def)
  also have "\<dots> \<le> length rest" by (simp add: ws_def length_takeWhile_le)
  finally have k_le: "k \<le> length rest" .
  from p have ten: "10 \<le> length s" using prefix_length_le by fastforce
  from le k_le ten have tot: "10 + k + n + 3 \<le> length s"
    by (simp add: body_on_def rest_def)
  with w have lw: "length w = 10 + k + n + 3" by simp
  from w lw show "w = take (length w) s" by simp
  from lw show "13 \<le> length w" by simp
  from lw tot show "length w \<le> length s" by simp
  from p w show "prefix (js ''```mermaid'') w"
    by (auto simp: prefix_def min_def)
  have "drop (10 + k + n) w = take 3 (drop n body_on)"
    unfolding w body_on_def rest_def by (simp add: drop_take add.commute add.left_commute)
  moreover from cl le have "take 3 (drop n body_on) = js ''```''"
    by (auto simp: prefix_def)
  ultimately have "drop (10 + k + n) w = js ''```''" by simp
  then show "suffix (js ''```'') w"
    by (metis suffix_drop)
qed

lemma fence_exec_SomeD:
  assumes "fence_exec s i = (Some m, j)"
  shows "i \<le> index m" and "j = index m + length (whole m)" and "j \<le> length s"
    and "i < j" and "fence_at (drop (index m) s) = Some (whole m, group1 m)"
proof -
  from assms have le: "i \<le> length s"
    by (auto simp: fence_exec_def split: if_splits)
  from assms le obtain k w b where
    s: "search fence_at i (drop i s) = Some (k, (w, b))"
    and m: "m = \<lparr>index = k, whole = w, group1 = b\<rparr>" and j: "j = k + length w"
    by (auto simp: fence_exec_def split: if_splits option.splits)
  from search_SomeD[OF s] have ik: "i \<le> k" and kl0: "k \<le> i + length (drop i s)"
    and at0: "fence_at (drop (k - i) (drop i s)) = Some (w, b)" by blast+
  from kl0 le have kl: "k \<le> length s" by simp
  from ik have "k - i + i = k" by simp
  with at0 have at: "fence_at (drop k s) = Some (w, b)" by simp
  from fence_at_SomeD(2,3)[OF at] have w: "13 \<le> length w" "length w \<le> length s - k" by simp_all
  from ik m show "i \<le> index m" by simp
  from j m show "j = index m + length (whole m)" by simp
  from j w kl show "j \<le> length s" by simp
  from j w ik show "i < j" by simp
  from at m show "fence_at (drop (index m) s) = Some (whole m, group1 m)" by simp
qed

section \<open>The diagram extractor\<close>

record DiagramInfo =
  diagramId :: jsstring
  mermaidCode :: jsstring
  startPos :: nat
  endPos :: nat

text \<open>
  The \<^verbatim>\<open>while (match !== null)\<close> loop of \<^verbatim>\<open>extractMermaidDiagrams\<close>. Its state is the
  array \<open>diagrams\<close>, the variable \<open>match\<close> and the pattern's \<open>lastIndex\<close>. The branch for an
  empty trimmed body is \<^verbatim>\<open>continue\<close> with nothing changed, so the loop re-enters with the
  same state; a run that never leaves the loop has the value \<open>None\<close>. The guard
  \<^verbatim>\<open>match.index === undefined\<close> is never true of a result of \<^verbatim>\<open>exec\<close> and has no branch
  here.
\<close>

partial_function (option) extract_loop ::
  "jsstring \<Rightarrow> nat \<Rightarrow> DiagramInfo list \<Rightarrow> fence_match option \<Rightarrow> DiagramInfo list option" where
  "extract_loop markdownContent lastIndex diagrams match =
     (case match of
        None \<Rightarrow> Some diagrams
      | Some m \<Rightarrow>
          let mermaidCode = trim (group1 m) in
          if mermaidCode = [] then extract_loop markdownContent lastIndex diagrams match
          else
            let diagramId = js ''diagram_'' @ digits (length diagrams);
                diagrams' = diagrams @ [\<lparr>diagramId = diagramId, mermaidCode = mermaidCode,
                                         startPos = index m, endPos = index m + length (whole m)\<rparr>]
            in case fence_exec markdownContent lastIndex of
                 (match', lastIndex') \<Rightarrow> extract_loop markdownContent lastIndex' diagrams' match')"

declare extract_loop.simps [code]

definition extractMermaidDiagrams :: "jsstring \<Rightarrow> DiagramInfo list option" where
  "extractMermaidDiagrams markdownContent =
     (case fence_exec markdownContent 0 of
        (match, lastIndex) \<Rightarrow> extract_loop markdownContent lastIndex [] match)"

text \<open>
  The diagram fences of a text in source order: the successive matches of the pattern,
  each search starting where the previous match ended.
\<close>

function fences_from :: "jsstring \<Rightarrow> nat \<Rightarrow> fence_match list" where
  "fences_from s i =
     (case fence_exec s i of
        (None, _) \<Rightarrow> []
      | (Some m, j) \<Rightarrow> m # fences_from s j)"
  by pat_completeness auto
termination
proof (relation "measure (\<lambda>(s, i). Suc (length s) - i)")
  show "wf (measure (\<lambda>(s, i). Suc (length s) - i))" by simp
next
  fix s i x1 j m
  assume "(x1, j) = fence_exec s i" and "x1 = Some m"
  then have "fence_exec s i = (Some m, j)" by simp
  from fence_exec_SomeD(3,4)[OF this]
  show "((s, j), (s, i)) \<in> measure (\<lambda>(s, i). Suc (length s) - i)" by simp
qed

declare fences_from.simps [simp del]

definition fences :: "jsstring \<Rightarrow> fence_match list" where
  "fences s = fences_from s 0"

text \<open>The record the loop pushes for a match when \<open>k\<close> records are already there.\<close>

definition record_of :: "nat \<Rightarrow> fence_match \<Rightarrow> DiagramInfo" where
  "record_of k m =
     \<lparr>diagramId = js ''diagram_'' @ digits k, mermaidCode = trim (group1 m),
      startPos = index m, endPos = index m + length (whole m)\<rparr>"

fun records_from :: "nat \<Rightarrow> fence_match list \<Rightarrow> DiagramInfo list" where
  "records_from k [] = []"
| "records_from k (m # ms) = record_of k m # records_from (Suc k) ms"

lemma extract_loop_None: "extract_loop md li ds None = Some ds"
  by (rule trans[OF extract_loop.simps]) simp

lemma extract_loop_Some:
  "trim (group1 m) \<noteq> [] \<Longrightarrow>
   extract_loop md li ds (Some m) =
     extract_loop md (snd (fence_exec md li)) (ds @ [record_of (length ds) m])
       (fst (fence_exec md li))"
  apply (rule trans[OF extract_loop.simps])
  apply (cases "fence_exec md li")
  apply (simp only: option.case Let_def if_False prod.case fst_conv snd_conv record_of_def)
  done

lemma extract_loop_returns_only_past_nonempty:
  assumes "extract_loop md li ds mo = Some r"
  shows "case mo of None \<Rightarrow> True | Some m \<Rightarrow> trim (group1 m) \<noteq> []"
proof (rule extract_loop.raw_induct
    [where P = "\<lambda>md li ds mo r. case mo of None \<Rightarrow> True | Some m \<Rightarrow> trim (group1 m) \<noteq> []",
      OF _ assms])
  fix f :: "jsstring \<Rightarrow> nat \<Rightarrow> DiagramInfo list \<Rightarrow> fence_match option \<Rightarrow> DiagramInfo list option"
  fix md li ds mo r
  assume IH: "\<And>md li ds mo r. f md li ds mo = Some r \<Longrightarrow>
                 (case mo of None \<Rightarrow> True | Some m \<Rightarrow> trim (group1 m) \<noteq> [])"
  assume body: "(case mo of
        None \<Rightarrow> Some ds
      | Some m \<Rightarrow>
          let mermaidCode = trim (group1 m) in
          if mermaidCode = [] then f md li ds mo
          else
            let diagramId = js ''diagram_'' @ digits (length ds);
                diagrams' = ds @ [\<lparr>diagramId = diagramId, mermaidCode = mermaidCode,
                                   startPos = index m, endPos = index m + length (whole m)\<rparr>]
            in case fence_exec md li of
                 (match', lastIndex') \<Rightarrow> f md lastIndex' diagrams' match') = Some r"
  show "case mo of None \<Rightarrow> True | Some m \<Rightarrow> trim (group1 m) \<noteq> []"
  proof (cases mo)
    case None
    then show ?thesis by simp
  next
    case (Some m)
    show ?thesis
    proof (cases "trim (group1 m) = []")
      case True
      with body Some have "f md li ds (Some m) = Some r" by simp
      from IH[OF this] True show ?thesis by simp
    next
      case False
      with Some show ?thesis by simp
    qed
  qed
qed

lemma extract_loop_stuck:
  assumes "trim (group1 m) = []"
  shows "extract_loop md li ds (Some m) = None"
proof (cases "extract_loop md li ds (Some m)")
  case None
  then show ?thesis .
next
  case (Some r)
  from extract_loop_returns_only_past_nonempty[OF this] assms show ?thesis by simp
qed

subsection \<open>What the fences of a text are\<close>



subsection \<open>The loop against the list of fences\<close>

lemma extract_loop_fences:
  "extract_loop md j ds mo =
     (let pending = (case mo of None \<Rightarrow> [] | Some m \<Rightarrow> m # fences_from md j)
      in if \<exists>m \<in> set pending. trim (group1 m) = [] then None
         else Some (ds @ records_from (length ds) pending))"
proof (induction md j arbitrary: ds mo rule: fences_from.induct)
  case (1 s i)
  show ?case
  proof (cases mo)
    case None
    then show ?thesis by (simp add: extract_loop_None)
  next
    case (Some m)
    show ?thesis
    proof (cases "trim (group1 m) = []")
      case True
      with Some show ?thesis by (simp add: extract_loop_stuck)
    next
      case False
      obtain mo' j' where fe: "fence_exec s i = (mo', j')" by (cases "fence_exec s i")
      show ?thesis
      proof (cases mo')
        case None
        with fe have "fences_from s i = []" by (simp add: fences_from.simps)
        with Some False fe None show ?thesis
          by (simp add: extract_loop_Some extract_loop_None)
      next
        case m': (Some m')
        with fe have ff: "fences_from s i = m' # fences_from s j'"
          by (simp add: fences_from.simps[of s i])
        from fe m' have "(mo', j') = fence_exec s i" "mo' = Some m'" by simp_all
        note ih = "1.IH"[OF this, of "ds @ [record_of (length ds) m]" "Some m'"]
        from Some False fe m' ff ih show ?thesis
          by (simp add: extract_loop_Some)
      qed
    qed
  qed
qed

lemma extractMermaidDiagrams_fences:
  "extractMermaidDiagrams md =
     (if \<exists>m \<in> set (fences md). trim (group1 m) = [] then None
      else Some (records_from 0 (fences md)))"
proof (cases "fence_exec md 0")
  case (Pair mo j)
  show ?thesis
  proof (cases mo)
    case None
    with Pair show ?thesis
      by (simp add: extractMermaidDiagrams_def fences_def fences_from.simps[of md 0]
          extract_loop_None)
  next
    case (Some m)
    with Pair show ?thesis
      by (auto simp: extractMermaidDiagrams_def fences_def fences_from.simps[of md 0]
          extract_loop_fences)
  qed
qed

lemma extractMermaidDiagrams_diverges_iff:
  "extractMermaidDiagrams md = None \<longleftrightarrow> (\<exists>m \<in> set (fences md). trim (group1 m) = [])"
  by (simp add: extractMermaidDiagrams_fences)

lemma length_records_from [simp]: "length (records_from k ms) = length ms"
  by (induction ms arbitrary: k) auto

lemma ids_records_from:
  "map diagramId (records_from k ms) = map (\<lambda>i. js ''diagram_'' @ digits i) [k..<k + length ms]"
proof (induction ms arbitrary: k)
  case Nil
  then show ?case by simp
next
  case (Cons m ms)
  have "[k..<k + length (m # ms)] = k # [Suc k..<Suc k + length ms]"
    by (subst upt_rec) simp
  with Cons.IH[of "Suc k"] show ?case by (simp add: record_of_def)
qed

lemma codes_records_from:
  "map mermaidCode (records_from k ms) = map (\<lambda>m. trim (group1 m)) ms"
  by (induction ms arbitrary: k) (auto simp: record_of_def)

lemma spans_records_from:
  "map (\<lambda>d. (startPos d, endPos d)) (records_from k ms) =
     map (\<lambda>m. (index m, index m + length (whole m))) ms"
  by (induction ms arbitrary: k) (auto simp: record_of_def)

subsection \<open>Claims about the extractor\<close>

text \<open>
  C1 (as amended). For every markdown input whose K diagram fences, in source order, all
  have a body that is not empty after trimming, \<open>extractMermaidDiagrams\<close> returns exactly K
  records; their ids are \<open>diagram_0\<close> .. \<open>diagram_{K-1}\<close> in that order and each record's
  \<open>mermaidCode\<close> is the fenced body with leading and trailing white space trimmed. The
  extractor is a function of its input alone, so every call on the same input gives the
  same result.
\<close>

theorem C1_extract_records_of_nonempty_fences:
  assumes "\<forall>m \<in> set (fences md). trim (group1 m) \<noteq> []"
  shows "\<exists>ds. extractMermaidDiagrams md = Some ds
           \<and> length ds = length (fences md)
           \<and> map diagramId ds = map (\<lambda>i. js ''diagram_'' @ digits i) [0..<length (fences md)]
           \<and> map mermaidCode ds = map (\<lambda>m. trim (group1 m)) (fences md)"
  using assms ids_records_from[of 0 "fences md"]
  by (simp add: extractMermaidDiagrams_fences codes_records_from)

theorem C1_witness:
  "map (\<lambda>m. trim (group1 m))
       (fences (js ''# T\<newline>```mermaid\<newline>A-->B\<newline>```\<newline>```mermaid  \<newline> C \<newline>```''))
     = [js ''A-->B'', js ''C'']
   \<and> (\<exists>ds. extractMermaidDiagrams
             (js ''# T\<newline>```mermaid\<newline>A-->B\<newline>```\<newline>```mermaid  \<newline> C \<newline>```'') = Some ds
         \<and> length ds = 2
         \<and> map diagramId ds = [js ''diagram_0'', js ''diagram_1'']
         \<and> map mermaidCode ds = [js ''A-->B'', js ''C''])"
proof -
  let ?md = "js ''# T\<newline>```mermaid\<newline>A-->B\<newline>```\<newline>```mermaid  \<newline> C \<newline>```''"
  have h: "\<forall>m \<in> set (fences ?md). trim (group1 m) \<noteq> []" by code_simp
  have l: "length (fences ?md) = 2" by code_simp
  have i: "map (\<lambda>i. js ''diagram_'' @ digits i) [0..<2] = [js ''diagram_0'', js ''diagram_1'']"
    by code_simp
  have c: "map (\<lambda>m. trim (group1 m)) (fences ?md) = [js ''A-->B'', js ''C'']" by code_simp
  from C1_extract_records_of_nonempty_fences[OF h] c show ?thesis
    unfolding l i c by blast
qed

text \<open>
  C1 as stated fails: a text with one diagram fence whose body is white space only has
  K = 1, and the extractor does not return one record; it does not return at all.
\<close>

theorem C1_counterexample:
  "length (fences (js ''# T\<newline>```mermaid\<newline>  \<newline>```\<newline>'')) = 1
   \<and> extractMermaidDiagrams (js ''# T\<newline>```mermaid\<newline>  \<newline>```\<newline>'') = None"
proof -
  let ?md = "js ''# T\<newline>```mermaid\<newline>  \<newline>```\<newline>''"
  have l: "length (fences ?md) = 1" by code_simp
  have "\<exists>m \<in> set (fences ?md). trim (group1 m) = []" by code_simp
  then have "extractMermaidDiagrams ?md = None"
    by (simp add: extractMermaidDiagrams_fences)
  with l show ?thesis by simp
qed

text \<open>
  C4. A diagram fence whose body is empty or white space only is to be skipped and
  contribute no record. On a fence that holds only blank lines the loop takes its
  \<^verbatim>\<open>continue\<close> branch without calling \<^verbatim>\<open>exec\<close> again and never leaves it: the extractor
  returns nothing, neither an empty list nor any other.
\<close>

theorem C4_blank_fence_never_returns:
  "extractMermaidDiagrams (js ''```mermaid\<newline>\<newline>\<newline>```'') = None"
  by (simp add: extractMermaidDiagrams_def fence_exec_def fence_at_def js_def
      extract_loop_stuck is_space_def LF_def trim_def)

text \<open>
  C5. The extractor is to terminate on every input. After a first, well-formed diagram
  the second fence of this text has a body of one space; the loop reaches it and does
  not terminate.
\<close>

theorem C5_extract_does_not_terminate:
  "extractMermaidDiagrams (js ''```mermaid\<newline>A\<newline>```\<newline>```mermaid\<newline> \<newline>```\<newline>'') = None"
proof -
  have "\<exists>m \<in> set (fences (js ''```mermaid\<newline>A\<newline>```\<newline>```mermaid\<newline> \<newline>```\<newline>'')).
          trim (group1 m) = []"
    by code_simp
  then show ?thesis by (simp add: extractMermaidDiagrams_fences)
qed

section \<open>String replacement\<close>

text \<open>
  \<^verbatim>\<open>s.replace(/p/g, r)\<close> for a pattern that is a literal, non-empty text \<open>p\<close> and a
  replacement \<open>r\<close> without \<^verbatim>\<open>$\<close>: every occurrence of \<open>p\<close>, from left to right and without
  overlap, becomes \<open>r\<close>.
\<close>

fun replace_all :: "jsstring \<Rightarrow> jsstring \<Rightarrow> jsstring \<Rightarrow> jsstring" where
  "replace_all p r [] = []"
| "replace_all p r (x # xs) =
     (if p \<noteq> [] \<and> prefix p (x # xs) then r @ replace_all p r (drop (length p - 1) xs)
      else x # replace_all p r xs)"

text \<open>
  \<^verbatim>\<open>GetSubstitution\<close> of ECMAScript for a search value that is a string (so there are no
  capture groups): in the replacement text \<^verbatim>\<open>$$\<close> stands for \<^verbatim>\<open>$\<close>, \<^verbatim>\<open>$&\<close> for the matched
  text, \<^verbatim>\<open>$`\<close> for the text before the match and \<^verbatim>\<open>$'\<close> for the text after it; any other
  \<^verbatim>\<open>$\<close> is literal.
\<close>

fun get_substitution :: "jsstring \<Rightarrow> jsstring \<Rightarrow> jsstring \<Rightarrow> jsstring \<Rightarrow> jsstring" where
  "get_substitution matched preceding following [] = []"
| "get_substitution matched preceding following [c] = [c]"
| "get_substitution matched preceding following (c # d # t) =
     (if c = 0x24 then
        if d = 0x24 then 0x24 # get_substitution matched preceding following t
        else if d = 0x26 then matched @ get_substitution matched preceding following t
        else if d = 0x60 then preceding @ get_substitution matched preceding following t
        else if d = 0x27 then following @ get_substitution matched preceding following t
        else c # get_substitution matched preceding following (d # t)
      else c # get_substitution matched preceding following (d # t))"

text \<open>
  \<^verbatim>\<open>s.replace(searchValue, replaceValue)\<close> with two strings: the first occurrence only.
\<close>

definition replace_first :: "jsstring \<Rightarrow> jsstring \<Rightarrow> jsstring \<Rightarrow> jsstring" where
  "replace_first s searchValue replaceValue =
     (case find_sub searchValue s of
        None \<Rightarrow> s
      | Some pos \<Rightarrow>
          let preceding = take pos s;
              following = drop (pos + length searchValue) s
          in preceding @ get_substitution searchValue preceding following replaceValue @ following)"

text \<open>
  \<open>plain_replace h token text\<close> puts \<open>text\<close>, as it is, in place of the first occurrence of
  \<open>token\<close> in \<open>h\<close>. That is \<^verbatim>\<open>h.replace(token, text)\<close> for a \<open>text\<close> without \<^verbatim>\<open>$\<close>.
\<close>

definition plain_replace :: "jsstring \<Rightarrow> jsstring \<Rightarrow> jsstring \<Rightarrow> jsstring" where
  "plain_replace h token text =
     (case find_sub token h of
        None \<Rightarrow> h
      | Some pos \<Rightarrow> take pos h @ text @ drop (pos + length token) h)"

lemma plain_replace_None: "find_sub t h = None \<Longrightarrow> plain_replace h t v = h"
  by (simp add: plain_replace_def)

lemma plain_replace_Some:
  "find_sub t h = Some p \<Longrightarrow> plain_replace h t v = take p h @ v @ drop (p + length t) h"
  by (simp add: plain_replace_def)

lemma get_substitution_plain:
  "0x24 \<notin> set r \<Longrightarrow> get_substitution m p f r = r"
  by (induction m p f r rule: get_substitution.induct) auto

lemma replace_first_plain:
  "0x24 \<notin> set r \<Longrightarrow> replace_first h t r = plain_replace h t r"
  by (simp add: replace_first_def plain_replace_def get_substitution_plain Let_def
      split: option.splits)

section \<open>Decoding HTML entities\<close>

definition decodeHtmlEntities :: "jsstring \<Rightarrow> jsstring" where
  "decodeHtmlEntities encoded =
     replace_all (js ''&#39;'') [0x27]
       (replace_all (js ''&quot;'') [0x22]
         (replace_all (js ''&amp;'') (js ''&'')
           (replace_all (js ''&gt;'') (js ''>'')
             (replace_all (js ''&lt;'') (js ''<'') encoded))))"

text \<open>
  The encoding the round-trip property speaks of is not a function of the converter (the
  markdown engine escapes the text of a code block). It is the standard HTML escaping of
  the five characters, the ampersand first.
\<close>

definition encode :: "jsstring \<Rightarrow> jsstring" where
  "encode s =
     replace_all [0x27] (js ''&#39;'')
       (replace_all [0x22] (js ''&quot;'')
         (replace_all (js ''>'') (js ''&gt;'')
           (replace_all (js ''<'') (js ''&lt;'')
             (replace_all (js ''&'') (js ''&amp;'') s))))"

text \<open>
  C3. Decoding after encoding is to give the text back. The text \<^verbatim>\<open>&quot;\<close> (an ampersand
  and five ordinary characters) is encoded as \<^verbatim>\<open>&amp;quot;\<close>; the decoder replaces
  \<^verbatim>\<open>&amp;\<close> before it replaces \<^verbatim>\<open>&quot;\<close>, so the text is decoded twice and comes back as
  one double quote (code unit 0x22).
\<close>

theorem C3_decode_encode_quot:
  "encode (js ''&quot;'') = js ''&amp;quot;''
   \<and> decodeHtmlEntities (encode (js ''&quot;'')) = [0x22]
   \<and> decodeHtmlEntities (encode (js ''&quot;'')) \<noteq> js ''&quot;''"
  by (simp add: encode_def decodeHtmlEntities_def js_def)

section \<open>The code-block highlighter\<close>

text \<open>
  \<^verbatim>\<open>/<pre><code\s+class="language-([\w-]+)"[^>]*>([\s\S]*?)<\/code><\/pre>/g\<close>.

  \<open>code_at s\<close> is the match anchored at the start of \<open>s\<close>. Each greedy repetition is
  followed by a character outside its class (\<^verbatim>\<open>c\<close> after \<^verbatim>\<open>\s+\<close>, the double quote after
  \<^verbatim>\<open>[\w-]+\<close>, \<^verbatim>\<open>>\<close> after \<^verbatim>\<open>[^>]*\<close>), so it takes its whole run and backtracking into it
  cannot succeed; the lazy body stops at the first \<^verbatim>\<open></code></pre>\<close> (theorem
  \<open>code_at_backtrack\<close> in the last section). The result is \<^verbatim>\<open>match[0]\<close>, \<^verbatim>\<open>match[1]\<close> and
  \<^verbatim>\<open>match[2]\<close>.
\<close>

definition is_word :: "jschar \<Rightarrow> bool" where
  "is_word c \<longleftrightarrow> (0x41 \<le> c \<and> c \<le> 0x5A) \<or> (0x61 \<le> c \<and> c \<le> 0x7A)
                   \<or> (0x30 \<le> c \<and> c \<le> 0x39) \<or> c = 0x5F"

definition code_at :: "jsstring \<Rightarrow> (jsstring \<times> jsstring \<times> jsstring) option" where
  "code_at s =
     (if \<not> prefix (js ''<pre><code'') s then None
      else let r1 = drop 10 s;
               ws = takeWhile is_space r1;
               r2 = drop (length ws) r1
           in if ws = [] \<or> \<not> prefix (js (''class='' @ [CHR 0x22] @ ''language-'')) r2 then None
              else let r3 = drop 16 r2;
                       lang = takeWhile (\<lambda>c. is_word c \<or> c = 0x2D) r3;
                       r4 = drop (length lang) r3
                   in if lang = [] \<or> \<not> prefix [0x22] r4 then None
                      else let r5 = drop 1 r4;
                               attrs = takeWhile (\<lambda>c. c \<noteq> 0x3E) r5;
                               r6 = drop (length attrs) r5
                           in if \<not> prefix [0x3E] r6 then None
                              else let r7 = drop 1 r6 in
                                case find_sub (js ''</code></pre>'') r7 of
                                  None \<Rightarrow> None
                                | Some n \<Rightarrow>
                                    Some (take (10 + length ws + 16 + length lang + 1 + length attrs
                                                + 1 + n + 13) s,
                                          lang, take n r7))"

record code_match =
  cm_index :: nat
  cm_whole :: jsstring
  cm_group1 :: jsstring
  cm_group2 :: jsstring

definition code_exec :: "jsstring \<Rightarrow> nat \<Rightarrow> code_match option \<times> nat" where
  "code_exec s lastIndex =
     (if length s < lastIndex then (None, 0)
      else case search code_at lastIndex (drop lastIndex s) of
             None \<Rightarrow> (None, 0)
           | Some (i, (w, g1, g2)) \<Rightarrow>
               (Some \<lparr>cm_index = i, cm_whole = w, cm_group1 = g1, cm_group2 = g2\<rparr>, i + length w))"

lemma code_at_nonempty:
  assumes "code_at s = Some (w, g1, g2)"
  shows "w \<noteq> []"
proof -
  from assms have p: "prefix (js ''<pre><code'') s"
    by (auto simp: code_at_def split: if_splits)
  then have "10 \<le> length s" using prefix_length_le by fastforce
  moreover from assms p obtain t where "w = take t s" "10 \<le> t"
    by (auto simp: code_at_def Let_def split: if_splits option.splits)
  ultimately show ?thesis by auto
qed

lemma code_exec_SomeD:
  assumes "code_exec s i = (Some m, j)"
  shows "i \<le> length s" and "i < j"
proof -
  from assms show le: "i \<le> length s"
    by (auto simp: code_exec_def split: if_splits)
  from assms le obtain k w g1 g2 where
    s: "search code_at i (drop i s) = Some (k, (w, g1, g2))" and j: "j = k + length w"
    by (auto simp: code_exec_def split: if_splits option.splits)
  from search_SomeD[OF s] have ik: "i \<le> k"
    and at: "code_at (drop (k - i) (drop i s)) = Some (w, g1, g2)"
    by blast+
  from code_at_nonempty[OF at] have "length w \<noteq> 0" by simp
  with ik j show "i < j" by linarith
qed

record CodeBlockInfo =
  fullMatch :: jsstring
  language :: jsstring
  code :: jsstring
  placeholder :: jsstring

text \<open>
  The first loop of \<^verbatim>\<open>highlightCodeBlocks\<close>: one record per match, numbered by
  \<open>placeholderIndex\<close>. Every match is longer than nothing, so \<open>lastIndex\<close> grows and the
  loop ends.
\<close>

function code_blocks_from :: "jsstring \<Rightarrow> nat \<Rightarrow> nat \<Rightarrow> CodeBlockInfo list" where
  "code_blocks_from h lastIndex placeholderIndex =
     (case code_exec h lastIndex of
        (None, _) \<Rightarrow> []
      | (Some m, lastIndex') \<Rightarrow>
          \<lparr>fullMatch = cm_whole m, language = cm_group1 m,
           code = decodeHtmlEntities (cm_group2 m),
           placeholder = js ''CODE_BLOCK_PLACEHOLDER_'' @ digits placeholderIndex\<rparr>
          # code_blocks_from h lastIndex' (Suc placeholderIndex))"
  by pat_completeness auto
termination
proof (relation "measure (\<lambda>(h, i, k). Suc (length h) - i)")
  show "wf (measure (\<lambda>(h, i, k). Suc (length h) - i))" by simp
next
  fix h i k x1 j m
  assume "(x1, j) = code_exec h i" and "x1 = Some m"
  then have "code_exec h i = (Some m, j)" by simp
  from code_exec_SomeD[OF this]
  show "((h, j, Suc k), (h, i, k)) \<in> measure (\<lambda>(h, i, k). Suc (length h) - i)" by simp
qed

declare code_blocks_from.simps [simp del]

text \<open>
  The highlighting engine is an external collaborator: whether it can be created, and
  what \<^verbatim>\<open>codeToHtml(code, {lang, theme})\<close> returns; \<open>None\<close> is a thrown exception (an
  unknown language, for one).
\<close>

record highlighter =
  createHighlighter_ok :: bool
  codeToHtml :: "jsstring \<Rightarrow> jsstring \<Rightarrow> jsstring option"

datatype error = HighlighterInitError | FsError

text \<open>
  \<^verbatim>\<open>lang.toLowerCase()\<close>. The language tag is a match of \<^verbatim>\<open>[\w-]+\<close>, so only the letters A
  to Z change.
\<close>

definition normalizeLanguage :: "jsstring \<Rightarrow> jsstring" where
  "normalizeLanguage lang = map (\<lambda>c. if 0x41 \<le> c \<and> c \<le> 0x5A then c + 0x20 else c) lang"

text \<open>
  A JavaScript \<^verbatim>\<open>Map\<close> keeps its keys in insertion order; \<^verbatim>\<open>set\<close> on a key that is
  there replaces the value in place. That is \<open>AList.update\<close>.
\<close>

definition map_set :: "'k \<Rightarrow> 'v \<Rightarrow> ('k \<times> 'v) list \<Rightarrow> ('k \<times> 'v) list" where
  "map_set k v m = AList.update k v m"

text \<open>The \<^verbatim>\<open>for (... of codeBlocks)\<close> loop with its \<^verbatim>\<open>try\<close>/\<^verbatim>\<open>catch\<close> per block.\<close>

fun highlight_each ::
  "highlighter \<Rightarrow> CodeBlockInfo list \<Rightarrow> CodeBlockInfo list \<Rightarrow> (jsstring \<times> jsstring) list
     \<Rightarrow> (jsstring \<times> jsstring) list" where
  "highlight_each hl codeBlocks [] highlightedBlocks = highlightedBlocks"
| "highlight_each hl codeBlocks (b # bs) highlightedBlocks =
     (case codeToHtml hl (code b) (normalizeLanguage (language b)) of
        Some highlighted \<Rightarrow>
          highlight_each hl codeBlocks bs (map_set (placeholder b) highlighted highlightedBlocks)
      | None \<Rightarrow>
          let originalBlock = find (\<lambda>cb. placeholder cb = placeholder b) codeBlocks
          in highlight_each hl codeBlocks bs
               (map_set (placeholder b)
                  (case originalBlock of Some cb \<Rightarrow> fullMatch cb | None \<Rightarrow> [])
                  highlightedBlocks))"

record HighlightResult =
  html :: jsstring
  styles :: jsstring

definition highlightCodeBlocks :: "highlighter \<Rightarrow> jsstring \<Rightarrow> error + HighlightResult" where
  "highlightCodeBlocks hl h =
     (let codeBlocks = code_blocks_from h 0 0 in
      if codeBlocks = [] then Inr \<lparr>html = h, styles = []\<rparr>
      else if \<not> createHighlighter_ok hl then Inl HighlighterInitError
      else
        let highlightedBlocks = highlight_each hl codeBlocks codeBlocks [];
            highlightedHtml =
              fold (\<lambda>b acc. replace_first acc (fullMatch b) (placeholder b)) codeBlocks h;
            shikiStyles = [];
            highlightedHtml' =
              fold (\<lambda>(ph, highlighted) acc. replace_first acc ph highlighted)
                highlightedBlocks highlightedHtml
        in Inr \<lparr>html = highlightedHtml', styles = shikiStyles\<rparr>)"

text \<open>
  C8. When highlighting fails for a block, the block's original text is to come back
  byte for byte. The fallback puts the original block back with
  \<^verbatim>\<open>highlightedHtml.replace(placeholder, fullMatch)\<close>, and \<^verbatim>\<open>replace\<close> reads \<^verbatim>\<open>$$\<close> in its
  second argument as one \<^verbatim>\<open>$\<close>: a block of an unknown language that holds \<^verbatim>\<open>a$$b\<close> comes
  back as \<^verbatim>\<open>a$b\<close>.
\<close>

theorem C8_fallback_block_not_verbatim:
  "highlightCodeBlocks \<lparr>createHighlighter_ok = True, codeToHtml = (\<lambda>code lang. None)\<rparr>
     (js (''<pre><code class='' @ [CHR 0x22] @ ''language-foo'' @ [CHR 0x22]
          @ ''>a$$b</code></pre>''))
   = Inr \<lparr>html = js (''<pre><code class='' @ [CHR 0x22] @ ''language-foo'' @ [CHR 0x22]
                      @ ''>a$b</code></pre>''),
          styles = []\<rparr>"
  by code_simp

section \<open>The diagram renderer\<close>

text \<open>
  The renderer works on the operating system: it creates a directory, writes a file,
  runs the Mermaid CLI and removes the directory. The model takes what the operating
  system answers as a parameter and keeps the world the renderer acts on as a state:
  the renderer's field \<open>tempDir\<close>, the contents of the files, and the trace of the
  file-system actions and log lines in the order they happen.
\<close>

datatype level = LDebug | LInfo | LWarn | LError

datatype event =
    Log level jsstring
  | Mkdtemp
  | WriteFile jsstring
  | ExecFile jsstring jsstring
  | Rm jsstring

text \<open>
  How \<^verbatim>\<open>execFileAsync\<close> ends: it resolves, or it rejects with an error whose \<^verbatim>\<open>code\<close> is
  \<^verbatim>\<open>"ETIMEDOUT"\<close>, or it rejects with any other error.
\<close>

datatype exec_result = ExecResolved | ExecTimedOut | ExecRejected

record os =
  mkdtemp :: "error + jsstring"
  path_join :: "jsstring \<Rightarrow> jsstring \<Rightarrow> jsstring"
  writeFile_ok :: "jsstring \<Rightarrow> bool"
  run_mmdc :: "jsstring \<Rightarrow> exec_result \<times> jsstring option"
  rm_ok :: "jsstring \<Rightarrow> bool"

text \<open>
  \<open>mkdtemp\<close> is the outcome of \<^verbatim>\<open>mkdtemp(join(tmpdir(), "md-to-html-"))\<close>; \<open>run_mmdc\<close> maps
  the diagram source to how the process ends and to the text it leaves in the output
  file, if it writes one.
\<close>

record world =
  tempDir :: "jsstring option"
  files :: "jsstring \<Rightarrow> jsstring option"
  trace :: "event list"

text \<open>
  The first statement of \<^verbatim>\<open>renderMermaidToSvg\<close>:
  \<^verbatim>\<open>if (!this.tempDir) this.tempDir = await mkdtemp(...)\<close>. The test holds for \<^verbatim>\<open>null\<close> and
  for the empty string. The result is the directory to work in, or the exception of
  \<^verbatim>\<open>mkdtemp\<close>.
\<close>

definition ensure_tempDir :: "os \<Rightarrow> world \<Rightarrow> error + (jsstring \<times> world)" where
  "ensure_tempDir sys w =
     (if tempDir w = None \<or> tempDir w = Some [] then
        (case mkdtemp sys of
           Inl e \<Rightarrow> Inl e
         | Inr d \<Rightarrow> Inr (d, w\<lparr>tempDir := Some d, trace := trace w @ [Mkdtemp]\<rparr>))
      else Inr (the (tempDir w), w))"

text \<open>
  \<^verbatim>\<open>renderMermaidToSvg(mermaidCode, diagramId)\<close>, its parameters here \<open>sourceCode\<close> and
  \<open>diagram\<close>. \<open>Inl\<close> is an exception that leaves the method, \<open>Inr None\<close> the returned
  \<^verbatim>\<open>null\<close>. \<^verbatim>\<open>mkdtemp\<close> and \<^verbatim>\<open>writeFile\<close> are awaited before the \<^verbatim>\<open>try\<close> block; the CLI
  runs inside it, and \<^verbatim>\<open>existsSync\<close> is asked only when the CLI call resolved.
\<close>

definition renderMermaidToSvg ::
  "os \<Rightarrow> world \<Rightarrow> jsstring \<Rightarrow> jsstring \<Rightarrow> (error + jsstring option) \<times> world" where
  "renderMermaidToSvg sys w sourceCode diagram =
     (case ensure_tempDir sys w of
        Inl e \<Rightarrow> (Inl e, w\<lparr>trace := trace w @ [Mkdtemp]\<rparr>)
      | Inr (dir, w1) \<Rightarrow>
          let mermaidFile = path_join sys dir (diagram @ js ''.mmd'');
              outputFile = path_join sys dir (diagram @ js ''.svg'');
              w2 = w1\<lparr>trace := trace w1 @ [WriteFile mermaidFile]\<rparr>
          in if \<not> writeFile_ok sys mermaidFile then (Inl FsError, w2)
             else
               let w3 = w2\<lparr>files := (files w2)(mermaidFile \<mapsto> sourceCode),
                            trace := trace w2 @ [ExecFile mermaidFile outputFile]\<rparr>;
                   w4 = (case snd (run_mmdc sys sourceCode) of
                           None \<Rightarrow> w3
                         | Some svg \<Rightarrow> w3\<lparr>files := (files w3)(outputFile \<mapsto> svg)\<rparr>)
               in case fst (run_mmdc sys sourceCode) of
                    ExecResolved \<Rightarrow>
                      if files w4 outputFile \<noteq> None then (Inr (Some outputFile), w4)
                      else (Inr None, w4)
                  | ExecTimedOut \<Rightarrow>
                      (Inr None,
                       w4\<lparr>trace := trace w4 @
                            [Log LWarn (js ''Mermaid CLI timeout while rendering diagram'')]\<rparr>)
                  | ExecRejected \<Rightarrow>
                      (Inr None,
                       w4\<lparr>trace := trace w4 @
                            [Log LError (js ''Mermaid CLI error while rendering diagram'')]\<rparr>))"

text \<open>
  \<^verbatim>\<open>cleanup\<close>. What \<^verbatim>\<open>rm\<close> deletes is not modelled, only that it ran and whether it
  failed. \<^verbatim>\<open>if (this.tempDir)\<close> fails for \<^verbatim>\<open>null\<close> and for the empty string.
\<close>

definition cleanup :: "os \<Rightarrow> world \<Rightarrow> (error + unit) \<times> world" where
  "cleanup sys w =
     (case tempDir w of
        None \<Rightarrow> (Inr (), w)
      | Some d \<Rightarrow>
          if d = [] then (Inr (), w)
          else
            let w1 = (if rm_ok sys d
                      then w\<lparr>trace := trace w @
                             [Rm d, Log LDebug (js ''Cleaned up temporary directory'')]\<rparr>
                      else w\<lparr>trace := trace w @
                             [Rm d, Log LWarn (js ''Failed to clean up temporary directory'')]\<rparr>)
            in (Inr (), w1\<lparr>tempDir := None\<rparr>))"

text \<open>
  The field \<open>tempDir\<close> is \<^verbatim>\<open>null\<close> or a path that \<^verbatim>\<open>mkdtemp\<close> returned, which is never the
  empty string; both methods keep it so.
\<close>

lemma ensure_tempDir_inv:
  "mkdtemp sys \<noteq> Inr [] \<Longrightarrow> ensure_tempDir sys w = Inr (dir, w1) \<Longrightarrow>
     dir \<noteq> [] \<and> tempDir w1 = Some dir"
  by (auto simp: ensure_tempDir_def split: if_splits sum.splits)

lemma renderMermaidToSvg_tempDir_inv:
  assumes "mkdtemp sys \<noteq> Inr []" and "tempDir w \<noteq> Some []"
  shows "tempDir (snd (renderMermaidToSvg sys w sourceCode diagram)) \<noteq> Some []"
proof (cases "ensure_tempDir sys w")
  case (Inl e)
  with assms(2) show ?thesis by (simp add: renderMermaidToSvg_def)
next
  case (Inr p)
  obtain dir w1 where p: "p = (dir, w1)" by (cases p)
  from ensure_tempDir_inv[OF assms(1)] Inr p have "dir \<noteq> []" "tempDir w1 = Some dir"
    by simp_all
  with Inr p show ?thesis
    by (simp add: renderMermaidToSvg_def Let_def split: option.splits exec_result.splits)
qed

lemma cleanup_tempDir_inv:
  "tempDir w \<noteq> Some [] \<Longrightarrow> tempDir (snd (cleanup sys w)) \<noteq> Some []"
  by (simp add: cleanup_def Let_def split: option.splits)

text \<open>
  When the directory is there and the source file is written, the method returns: the
  path of the output file when the CLI call resolved and the file exists, \<^verbatim>\<open>null\<close>
  otherwise.
\<close>

lemma renderMermaidToSvg_result:
  assumes "ensure_tempDir sys w = Inr (dir, w1)"
    and "writeFile_ok sys (path_join sys dir (diagram @ js ''.mmd''))"
  shows "fst (renderMermaidToSvg sys w sourceCode diagram) =
           Inr (if fst (run_mmdc sys sourceCode) = ExecResolved
                   \<and> (snd (run_mmdc sys sourceCode) \<noteq> None
                       \<or> ((files w1)(path_join sys dir (diagram @ js ''.mmd'') \<mapsto> sourceCode))
                            (path_join sys dir (diagram @ js ''.svg'')) \<noteq> None)
                then Some (path_join sys dir (diagram @ js ''.svg'')) else None)"
proof (cases "fst (run_mmdc sys sourceCode)")
  case ExecResolved
  with assms show ?thesis
    by (cases "snd (run_mmdc sys sourceCode)") (simp_all add: renderMermaidToSvg_def Let_def)
next
  case ExecTimedOut
  with assms show ?thesis by (simp add: renderMermaidToSvg_def Let_def)
next
  case ExecRejected
  with assms show ?thesis by (simp add: renderMermaidToSvg_def Let_def)
qed

text \<open>
  The method throws exactly when \<^verbatim>\<open>mkdtemp\<close> fails or the source file cannot be written,
  the two steps before the \<^verbatim>\<open>try\<close> block.
\<close>

lemma renderMermaidToSvg_throws_iff:
  "fst (renderMermaidToSvg sys w sourceCode diagram) = Inl e \<longleftrightarrow>
     ensure_tempDir sys w = Inl e
     \<or> (\<exists>dir w1. ensure_tempDir sys w = Inr (dir, w1)
            \<and> \<not> writeFile_ok sys (path_join sys dir (diagram @ js ''.mmd'')) \<and> e = FsError)"
proof (cases "ensure_tempDir sys w")
  case (Inl e')
  then show ?thesis by (simp add: renderMermaidToSvg_def)
next
  case (Inr p)
  obtain dir w1 where p: "p = (dir, w1)" by (cases p)
  show ?thesis
  proof (cases "writeFile_ok sys (path_join sys dir (diagram @ js ''.mmd''))")
    case True
    from renderMermaidToSvg_result[of sys w dir w1 diagram sourceCode] Inr p True
    show ?thesis by simp
  next
    case False
    with Inr p show ?thesis by (auto simp: renderMermaidToSvg_def Let_def)
  qed
qed

text \<open>
  C6 (as amended). For every source text and diagram id, when the temporary directory
  is there or can be created and the diagram source file can be written,
  \<open>renderMermaidToSvg\<close> does not throw: it returns the path of the output file when the
  CLI call resolved and the file exists, and \<^verbatim>\<open>null\<close> in every other case (timeout, any
  other CLI error, missing output file).
\<close>

theorem C6_render_failure_is_null:
  assumes "ensure_tempDir sys w = Inr (dir, w1)"
    and "writeFile_ok sys (path_join sys dir (diagram @ js ''.mmd''))"
  shows "fst (renderMermaidToSvg sys w sourceCode diagram) =
           Inr (if fst (run_mmdc sys sourceCode) = ExecResolved
                   \<and> (snd (run_mmdc sys sourceCode) \<noteq> None
                       \<or> ((files w1)(path_join sys dir (diagram @ js ''.mmd'') \<mapsto> sourceCode))
                            (path_join sys dir (diagram @ js ''.svg'')) \<noteq> None)
                then Some (path_join sys dir (diagram @ js ''.svg'')) else None)"
  using assms by (rule renderMermaidToSvg_result)

text \<open>
  An operating system and a first state for the examples: \<^verbatim>\<open>mkdtemp\<close> succeeds, paths are
  joined with a slash, the CLI writes no file and the removal of the directory fails;
  whether files can be written and how the CLI call ends are left open.
\<close>

definition sys_demo :: "bool \<Rightarrow> exec_result \<Rightarrow> os" where
  "sys_demo can_write outcome =
     \<lparr>mkdtemp = Inr (js ''/tmp/md-to-html-a1B2c3''),
      path_join = (\<lambda>d f. d @ js ''/'' @ f),
      writeFile_ok = (\<lambda>p. can_write),
      run_mmdc = (\<lambda>src. (outcome, None)),
      rm_ok = (\<lambda>d. False)\<rparr>"

definition world_init :: world where
  "world_init = \<lparr>tempDir = None, files = (\<lambda>p. None), trace = []\<rparr>"

theorem C6_witness:
  "fst (renderMermaidToSvg (sys_demo True ExecTimedOut) world_init (js ''graph TD'') (js ''diagram_0''))
     = Inr None"
proof -
  have e: "ensure_tempDir (sys_demo True ExecTimedOut) world_init
             = Inr (js ''/tmp/md-to-html-a1B2c3'',
                    world_init\<lparr>tempDir := Some (js ''/tmp/md-to-html-a1B2c3''),
                               trace := [Mkdtemp]\<rparr>)"
    by (simp add: ensure_tempDir_def sys_demo_def world_init_def)
  have w: "writeFile_ok (sys_demo True ExecTimedOut)
             (path_join (sys_demo True ExecTimedOut) (js ''/tmp/md-to-html-a1B2c3'')
                (js ''diagram_0'' @ js ''.mmd''))"
    by (simp add: sys_demo_def)
  from C6_render_failure_is_null[OF e w, of "js ''graph TD''"] show ?thesis
    by (simp add: sys_demo_def)
qed

text \<open>
  C6 as stated fails: when the file of the diagram source cannot be written (a full
  disk, say), the rejection of \<^verbatim>\<open>writeFile\<close> leaves the method as an exception.
\<close>

theorem C6_counterexample:
  "fst (renderMermaidToSvg (sys_demo False ExecResolved) world_init (js ''graph TD'') (js ''diagram_0''))
     = Inl FsError"
  by (simp add: renderMermaidToSvg_def ensure_tempDir_def sys_demo_def world_init_def)

text \<open>
  C10. In every state of a renderer, \<open>cleanup\<close> does not throw; a failed removal of the
  directory is caught and logged as a warning; afterwards the field \<open>tempDir\<close> is
  \<^verbatim>\<open>null\<close>, and a second call succeeds and changes nothing: no file-system action, no log
  line.
\<close>

theorem C10_cleanup_never_throws_idempotent:
  assumes "tempDir w \<noteq> Some []"
  shows "fst (cleanup sys w) = Inr ()
         \<and> tempDir (snd (cleanup sys w)) = None
         \<and> cleanup sys (snd (cleanup sys w)) = (Inr (), snd (cleanup sys w))
         \<and> (\<forall>d. tempDir w = Some d \<and> \<not> rm_ok sys d \<longrightarrow>
               trace (snd (cleanup sys w)) =
                 trace w @ [Rm d, Log LWarn (js ''Failed to clean up temporary directory'')])"
  using assms by (cases "tempDir w") (simp_all add: cleanup_def Let_def)

theorem C10_witness:
  "tempDir (snd (renderMermaidToSvg (sys_demo True ExecTimedOut) world_init (js ''graph TD'') (js ''diagram_0'')))
     = Some (js ''/tmp/md-to-html-a1B2c3'')
   \<and> fst (cleanup (sys_demo True ExecTimedOut)
            (snd (renderMermaidToSvg (sys_demo True ExecTimedOut) world_init (js ''graph TD'') (js ''diagram_0''))))
       = Inr ()
   \<and> tempDir (snd (cleanup (sys_demo True ExecTimedOut)
            (snd (renderMermaidToSvg (sys_demo True ExecTimedOut) world_init (js ''graph TD'') (js ''diagram_0'')))))
       = None"
proof -
  let ?w = "snd (renderMermaidToSvg (sys_demo True ExecTimedOut) world_init (js ''graph TD'') (js ''diagram_0''))"
  have t: "tempDir ?w = Some (js ''/tmp/md-to-html-a1B2c3'')"
    by (simp add: renderMermaidToSvg_def ensure_tempDir_def sys_demo_def world_init_def Let_def)
  then have "tempDir ?w \<noteq> Some []" by (simp add: js_def)
  from C10_cleanup_never_throws_idempotent[OF this, of "sys_demo True ExecTimedOut"] t
  show ?thesis by simp
qed

section \<open>The document assembler\<close>

text \<open>
  \<^verbatim>\<open>wrapInHtmlDocument\<close>: the template literal, cut at \<^verbatim>\<open>${shikiStyles}\<close> and at
  \<^verbatim>\<open>${content}\<close>; \<^verbatim>\<open>${HTML_MAX_WIDTH}\<close> is the constant \<^verbatim>\<open>800px\<close>.
\<close>

definition shell_head :: jsstring where
  "shell_head =
     js (''<!DOCTYPE html>\<newline>''
       @ ''<html lang='' @ [CHR 0x22] @ ''en'' @ [CHR 0x22] @ ''>\<newline>''
       @ ''<head>\<newline>''
       @ ''    <meta charset='' @ [CHR 0x22] @ ''UTF-8'' @ [CHR 0x22] @ ''>\<newline>''
       @ ''    <meta name='' @ [CHR 0x22] @ ''viewport'' @ [CHR 0x22] @ '' content='' @ [CHR 0x22] @ ''width=device-width, initial-scale=1.0'' @ [CHR 0x22] @ ''>\<newline>''
       @ ''    <title>Converted Markdown</title>\<newline>''
       @ ''    <style>\<newline>''
       @ ''        body {\<newline>''
       @ ''            font-family: -apple-system, BlinkMacSystemFont, '' @ [CHR 0x27] @ ''Segoe UI'' @ [CHR 0x27] @ '', Arial, sans-serif;\<newline>''
       @ ''            max-width: 800px;\<newline>''
       @ ''            margin: 0 auto;\<newline>''
       @ ''            padding: 20px;\<newline>''
       @ ''            line-height: 1.6;\<newline>''
       @ ''            color: #24292e;\<newline>''
       @ ''            background-color: #ffffff;\<newline>''
       @ ''        }\<newline>''
       @ ''        h1, h2, h3, h4, h5, h6 {\<newline>''
       @ ''            margin-top: 1.5em;\<newline>''
       @ ''            margin-bottom: 0.5em;\<newline>''
       @ ''            font-weight: 600;\<newline>''
       @ ''            line-height: 1.25;\<newline>''
       @ ''        }\<newline>''
       @ ''        h1 {\<newline>''
       @ ''            font-size: 2em;\<newline>''
       @ ''            border-bottom: 1px solid #eaecef;\<newline>''
       @ ''            padding-bottom: 0.3em;\<newline>''
       @ ''        }\<newline>''
       @ ''        h2 {\<newline>''
       @ ''            font-size: 1.5em;\<newline>''
       @ ''            border-bottom: 1px solid #eaecef;\<newline>''
       @ ''            padding-bottom: 0.3em;\<newline>''
       @ ''        }\<newline>''
       @ ''        code:not(pre code) {\<newline>''
       @ ''            background-color: #f4f4f4;\<newline>''
       @ ''            padding: 2px 6px;\<newline>''
       @ ''            border-radius: 3px;\<newline>''
       @ ''            font-family: '' @ [CHR 0x27] @ ''SFMono-Regular'' @ [CHR 0x27] @ '', Consolas, '' @ [CHR 0x27] @ ''Liberation Mono'' @ [CHR 0x27] @ '', Menlo, monospace;\<newline>''
       @ ''            font-size: 0.9em;\<newline>''
       @ ''        }\<newline>''
       @ ''        pre.shiki {\<newline>''
       @ ''            padding: 16px;\<newline>''
       @ ''            border-radius: 6px;\<newline>''
       @ ''            overflow-x: auto;\<newline>''
       @ ''            line-height: 1.45;\<newline>''
       @ ''        }\<newline>''
       @ ''        pre.shiki code {\<newline>''
       @ ''            background-color: transparent;\<newline>''
       @ ''            padding: 0;\<newline>''
       @ ''            font-size: 0.9em;\<newline>''
       @ ''        }\<newline>''
       @ ''        table {\<newline>''
       @ ''            border-collapse: collapse;\<newline>''
       @ ''            width: 100%;\<newline>''
       @ ''            margin: 1em 0;\<newline>''
       @ ''        }\<newline>''
       @ ''        th, td {\<newline>''
       @ ''            border: 1px solid #dfe2e5;\<newline>''
       @ ''            padding: 8px 13px;\<newline>''
       @ ''            text-align: left;\<newline>''
       @ ''        }\<newline>''
       @ ''        th {\<newline>''
       @ ''            background-color: #f6f8fa;\<newline>''
       @ ''            font-weight: 600;\<newline>''
       @ ''        }\<newline>''
       @ ''        tr:nth-child(2n) {\<newline>''
       @ ''            background-color: #f6f8fa;\<newline>''
       @ ''        }\<newline>''
       @ ''        svg {\<newline>''
       @ ''            max-width: 100%;\<newline>''
       @ ''            height: auto;\<newline>''
       @ ''            margin: 1em 0;\<newline>''
       @ ''            display: block;\<newline>''
       @ ''        }\<newline>''
       @ ''        '')"

definition shell_mid :: jsstring where
  "shell_mid =
     js (''\<newline>''
       @ ''    </style>\<newline>''
       @ ''</head>\<newline>''
       @ ''<body>\<newline>'')"

definition shell_tail :: jsstring where
  "shell_tail =
     js (''\<newline>''
       @ ''</body>\<newline>''
       @ ''</html>'')"

definition wrapInHtmlDocument :: "jsstring \<Rightarrow> jsstring \<Rightarrow> jsstring" where
  "wrapInHtmlDocument content shikiStyles =
     shell_head @ shikiStyles @ shell_mid @ content @ shell_tail"

record MermaidReplacement =
  r_start :: nat
  r_end :: nat
  r_placeholder :: jsstring

text \<open>
  The inner \<^verbatim>\<open>while\<close> loop of \<^verbatim>\<open>convertMarkdownToHtml\<close>: a fresh pattern scans the text
  and the loop leaves with \<^verbatim>\<open>break\<close> at the first match whose index is \<open>pos\<close>, or ends
  without one.
\<close>

function find_fence :: "jsstring \<Rightarrow> nat \<Rightarrow> nat \<Rightarrow> fence_match option" where
  "find_fence s lastIndex pos =
     (case fence_exec s lastIndex of
        (None, _) \<Rightarrow> None
      | (Some m, lastIndex') \<Rightarrow> if index m = pos then Some m else find_fence s lastIndex' pos)"
  by pat_completeness auto
termination
proof (relation "measure (\<lambda>(s, i, p). Suc (length s) - i)")
  show "wf (measure (\<lambda>(s, i, p). Suc (length s) - i))" by simp
next
  fix s i p x1 j m
  assume "(x1, j) = fence_exec s i" and "x1 = Some m"
  then have "fence_exec s i = (Some m, j)" by simp
  from fence_exec_SomeD(3,4)[OF this]
  show "((s, j, p), (s, i, p)) \<in> measure (\<lambda>(s, i, p). Suc (length s) - i)" by simp
qed

declare find_fence.simps [simp del]

text \<open>
  The HTML for one diagram. \<^verbatim>\<open>if (imagePath)\<close> fails for the empty string; \<open>readFile\<close> is
  the file system as the assembler finds it, \<open>None\<close> a read that throws.
\<close>

definition failed_notice :: jsstring where
  "failed_notice = js ''<p><em>[Mermaid diagram - rendering failed]</em></p>''"

definition svg_html :: "(jsstring \<Rightarrow> jsstring option) \<Rightarrow> jsstring \<Rightarrow> jsstring" where
  "svg_html readFile imagePath =
     (if imagePath \<noteq> [] then
        (case readFile imagePath of
           Some svgContent \<Rightarrow>
             js (''<div style='' @ [CHR 0x22] @ ''max-width: 100%; margin: 1em 0;'' @ [CHR 0x22] @ ''>'')
             @ svgContent @ js ''</div>''
         | None \<Rightarrow> js ''<p><em>[Mermaid diagram - failed to read SVG]</em></p>'')
      else failed_notice)"

text \<open>
  The outcomes \<^verbatim>\<open>Map<number, {diagramId, imagePath}>\<close> is the list of its entries in
  iteration order, \<open>(startPos, diagramId, imagePath)\<close>. The outer \<^verbatim>\<open>for\<close> loop fills the
  map \<open>placeholders\<close> and the array \<open>replacements\<close>.
\<close>

type_synonym outcome = "nat \<times> jsstring \<times> jsstring"

fun collect ::
  "(jsstring \<Rightarrow> jsstring option) \<Rightarrow> jsstring \<Rightarrow> outcome list
     \<Rightarrow> (jsstring \<times> jsstring) list \<times> MermaidReplacement list
     \<Rightarrow> (jsstring \<times> jsstring) list \<times> MermaidReplacement list" where
  "collect readFile markdownContent [] acc = acc"
| "collect readFile markdownContent ((pos, dId, imagePath) # rest) (placeholders, replacements) =
     (case find_fence markdownContent 0 pos of
        None \<Rightarrow> collect readFile markdownContent rest (placeholders, replacements)
      | Some m \<Rightarrow>
          let ph = js ''MERMAID_PLACEHOLDER_'' @ dId;
              svgHtml = svg_html readFile imagePath
          in collect readFile markdownContent rest
               (map_set ph svgHtml placeholders,
                replacements @ [\<lparr>r_start = index m, r_end = index m + length (whole m),
                                  r_placeholder = ph\<rparr>]))"

text \<open>
  \<^verbatim>\<open>replacements.sort((a, b) => b.start - a.start)\<close>: the sort of an array is stable, so
  this is the stable sort by descending \<open>start\<close>.
\<close>

definition sort_desc :: "MermaidReplacement list \<Rightarrow> MermaidReplacement list" where
  "sort_desc rs = sort_key (\<lambda>r. - int (r_start r)) rs"

definition splice :: "MermaidReplacement \<Rightarrow> jsstring \<Rightarrow> jsstring" where
  "splice r processedContent =
     take (r_start r) processedContent @ r_placeholder r @ drop (r_end r) processedContent"

text \<open>The text handed to the markdown engine.\<close>

definition processed_content ::
  "(jsstring \<Rightarrow> jsstring option) \<Rightarrow> jsstring \<Rightarrow> outcome list \<Rightarrow> jsstring" where
  "processed_content readFile markdownContent imageReplacements =
     fold splice
       (sort_desc (snd (collect readFile markdownContent imageReplacements ([], []))))
       markdownContent"

text \<open>
  \<^verbatim>\<open>convertMarkdownToHtml\<close>. The markdown engine \<open>micromark\<close> is an external collaborator, a
  function from text to HTML.
\<close>

definition convertMarkdownToHtml ::
  "(jsstring \<Rightarrow> jsstring) \<Rightarrow> highlighter \<Rightarrow> (jsstring \<Rightarrow> jsstring option)
     \<Rightarrow> jsstring \<Rightarrow> outcome list \<Rightarrow> error + jsstring" where
  "convertMarkdownToHtml micromark hl readFile markdownContent imageReplacements =
     (case collect readFile markdownContent imageReplacements ([], []) of
        (placeholders, replacements) \<Rightarrow>
          let processedContent = fold splice (sort_desc replacements) markdownContent;
              htmlContent = micromark processedContent;
              finalHtml = fold (\<lambda>(ph, svgHtml) acc. replace_first acc ph svgHtml)
                               placeholders htmlContent
          in case highlightCodeBlocks hl finalHtml of
               Inl e \<Rightarrow> Inl e
             | Inr res \<Rightarrow> Inr (wrapInHtmlDocument (html res) (styles res)))"

text \<open>
  The HTML handed to the highlighter: \<open>finalHtml\<close> of \<^verbatim>\<open>convertMarkdownToHtml\<close>.
\<close>

definition final_html ::
  "(jsstring \<Rightarrow> jsstring) \<Rightarrow> (jsstring \<Rightarrow> jsstring option) \<Rightarrow> jsstring \<Rightarrow> outcome list
     \<Rightarrow> jsstring" where
  "final_html mm readFile markdownContent imageReplacements =
     fold (\<lambda>(ph, svgHtml) acc. replace_first acc ph svgHtml)
       (fst (collect readFile markdownContent imageReplacements ([], [])))
       (mm (processed_content readFile markdownContent imageReplacements))"

lemma convertMarkdownToHtml_final_html:
  "convertMarkdownToHtml mm hl rf md es =
     (case highlightCodeBlocks hl (final_html mm rf md es) of
        Inl e \<Rightarrow> Inl e
      | Inr res \<Rightarrow> Inr (wrapInHtmlDocument (html res) (styles res)))"
  by (simp add: convertMarkdownToHtml_def final_html_def processed_content_def Let_def
      split: prod.splits)

lemma wrapInHtmlDocument_inject [simp]:
  "wrapInHtmlDocument a s = wrapInHtmlDocument b s \<longleftrightarrow> a = b"
  by (simp add: wrapInHtmlDocument_def)

lemma convertMarkdownToHtml_is_document:
  "convertMarkdownToHtml mm hl rf md es = Inr h \<Longrightarrow> \<exists>content st. h = wrapInHtmlDocument content st"
  by (auto simp: convertMarkdownToHtml_final_html split: sum.splits)

subsection \<open>The splices\<close>

text \<open>The replacement an outcome contributes, if a fence starts at its key.\<close>

definition rep_of :: "jsstring \<Rightarrow> outcome \<Rightarrow> MermaidReplacement option" where
  "rep_of markdownContent e =
     map_option
       (\<lambda>m. \<lparr>r_start = index m, r_end = index m + length (whole m),
              r_placeholder = js ''MERMAID_PLACEHOLDER_'' @ fst (snd e)\<rparr>)
       (find_fence markdownContent 0 (fst e))"

lemma find_fence_index: "find_fence s i pos = Some m \<Longrightarrow> index m = pos"
proof (induction s i pos rule: find_fence.induct)
  case (1 s i pos)
  obtain mo j where fe: "fence_exec s i = (mo, j)" by (cases "fence_exec s i")
  show ?case
  proof (cases mo)
    case None
    with fe "1.prems" show ?thesis by (simp add: find_fence.simps[of s i])
  next
    case (Some m')
    show ?thesis
    proof (cases "index m' = pos")
      case True
      with fe Some "1.prems" show ?thesis by (simp add: find_fence.simps[of s i])
    next
      case False
      with fe Some "1.prems" have "find_fence s j pos = Some m"
        by (simp add: find_fence.simps[of s i])
      from "1.IH"[OF _ _ False this] fe Some show ?thesis by simp
    qed
  qed
qed

lemma rep_of_start: "rep_of md e = Some r \<Longrightarrow> r_start r = fst e"
  by (auto simp: rep_of_def dest: find_fence_index)

lemma snd_collect:
  "snd (collect rf md es (ps, rs)) = rs @ List.map_filter (rep_of md) es"
proof (induction es arbitrary: ps rs)
  case Nil
  then show ?case by (simp add: List.map_filter_simps)
next
  case (Cons e es)
  obtain pos dId path where e: "e = (pos, dId, path)" by (cases e)
  show ?case
  proof (cases "find_fence md 0 pos")
    case None
    with e Cons.IH show ?thesis by (simp add: List.map_filter_simps rep_of_def)
  next
    case (Some m)
    with e Cons.IH show ?thesis by (simp add: List.map_filter_simps rep_of_def Let_def)
  qed
qed

lemma set_map_filter:
  "set (List.map_filter f xs) = {y. \<exists>x \<in> set xs. f x = Some y}"
  by (induction xs) (auto split: option.splits)

lemma starts_map_filter_subset:
  "r_start ` set (List.map_filter (rep_of md) es) \<subseteq> fst ` set es"
  by (auto simp: set_map_filter dest: rep_of_start)

lemma distinct_starts:
  "distinct (map fst es) \<Longrightarrow> distinct (map r_start (List.map_filter (rep_of md) es))"
proof (induction es)
  case Nil
  then show ?case by (simp add: List.map_filter_simps)
next
  case (Cons e es)
  then have ih: "distinct (map r_start (List.map_filter (rep_of md) es))"
    and ne: "fst e \<notin> fst ` set es" by simp_all
  show ?case
  proof (cases "rep_of md e")
    case None
    with ih show ?thesis by (simp add: List.map_filter_simps)
  next
    case (Some r)
    from rep_of_start[OF Some] ne starts_map_filter_subset[of md es]
    have "r_start r \<notin> r_start ` set (List.map_filter (rep_of md) es)" by auto
    with ih Some show ?thesis by (simp add: List.map_filter_simps)
  qed
qed

lemma sort_desc_unique:
  assumes "set xs = set ys"
    and "distinct (map r_start xs)" and "distinct (map r_start ys)"
  shows "sort_desc xs = sort_desc ys"
proof -
  let ?f = "\<lambda>r. - int (r_start r)"
  have inj: "inj_on ?f (set xs)"
    using assms(2) by (auto simp: inj_on_def distinct_map)
  have dx: "distinct (map ?f (sort_key ?f xs))"
    using assms(2) by (auto simp: distinct_map inj_on_def)
  have dy: "distinct (map ?f (sort_key ?f ys))"
    using assms(3) by (auto simp: distinct_map inj_on_def)
  have "map ?f (sort_key ?f xs) = map ?f (sort_key ?f ys)"
    by (rule sorted_distinct_set_unique) (use dx dy assms(1) in simp_all)
  moreover have "set (sort_key ?f xs) = set xs" "set (sort_key ?f ys) = set xs"
    using assms(1) by simp_all
  ultimately show ?thesis
    unfolding sort_desc_def using inj inj_on_map_eq_map[of ?f "sort_key ?f xs" "sort_key ?f ys"]
    by simp
qed

lemma sort_desc_strict:
  assumes "distinct (map r_start xs)"
  shows "sorted_wrt (\<lambda>a b. r_start b < r_start a) (sort_desc xs)"
proof -
  let ?f = "\<lambda>r. - int (r_start r)"
  have "sorted (map ?f (sort_key ?f xs))" by simp
  moreover have "distinct (map ?f (sort_key ?f xs))"
    using assms by (auto simp: distinct_map inj_on_def)
  ultimately have "sorted_wrt (<) (map ?f (sort_key ?f xs))"
    by (simp add: strict_sorted_iff)
  then show ?thesis by (simp add: sort_desc_def sorted_wrt_map)
qed

subsection \<open>The text handed to the engine\<close>








subsection \<open>The registered placeholders\<close>

text \<open>
  The placeholder an outcome registers, if a fence starts at its key. When the entries
  have different diagram ids, the map \<open>placeholders\<close> is the list of these, in the
  iteration order of the outcomes map; in any case the token of every entry that names
  a fence is a key of the map.
\<close>

definition placeholder_of ::
  "(jsstring \<Rightarrow> jsstring option) \<Rightarrow> jsstring \<Rightarrow> outcome \<Rightarrow> (jsstring \<times> jsstring) option" where
  "placeholder_of readFile markdownContent e =
     map_option
       (\<lambda>m. (js ''MERMAID_PLACEHOLDER_'' @ fst (snd e), svg_html readFile (snd (snd e))))
       (find_fence markdownContent 0 (fst e))"

lemma map_set_fresh: "k \<notin> fst ` set m \<Longrightarrow> map_set k v m = m @ [(k, v)]"
  unfolding map_set_def by (induction m) auto


lemma fst_collect:
  assumes "distinct (map (\<lambda>e. fst (snd e)) es)"
    and "\<forall>e \<in> set es. js ''MERMAID_PLACEHOLDER_'' @ fst (snd e) \<notin> fst ` set ps"
  shows "fst (collect rf md es (ps, rs)) = ps @ List.map_filter (placeholder_of rf md) es"
  using assms
proof (induction es arbitrary: ps rs)
  case Nil
  then show ?case by (simp add: List.map_filter_simps)
next
  case (Cons e es)
  obtain pos dId path where e: "e = (pos, dId, path)" by (cases e)
  from Cons.prems(1) e have d: "distinct (map (\<lambda>e. fst (snd e)) es)"
    and n0: "dId \<notin> (\<lambda>e. fst (snd e)) ` set es" by simp_all
  from n0 have n: "\<forall>e' \<in> set es. fst (snd e') \<noteq> dId" by (metis image_eqI)
  from Cons.prems(2) have r: "\<forall>e \<in> set es. js ''MERMAID_PLACEHOLDER_'' @ fst (snd e) \<notin> fst ` set ps"
    and f: "js ''MERMAID_PLACEHOLDER_'' @ dId \<notin> fst ` set ps" using e by simp_all
  show ?case
  proof (cases "find_fence md 0 pos")
    case None
    with e Cons.IH[OF d r] show ?thesis
      by (simp add: List.map_filter_simps placeholder_of_def)
  next
    case (Some m)
    let ?ps = "ps @ [(js ''MERMAID_PLACEHOLDER_'' @ dId, svg_html rf path)]"
    from r n have r': "\<forall>e \<in> set es. js ''MERMAID_PLACEHOLDER_'' @ fst (snd e) \<notin> fst ` set ?ps"
      by auto
    from Cons.IH[OF d r'] e Some map_set_fresh[OF f] show ?thesis
      by (simp add: List.map_filter_simps placeholder_of_def Let_def)
  qed
qed

lemma distinct_placeholders:
  "distinct (map (\<lambda>e. fst (snd e)) es) \<Longrightarrow>
     distinct (map fst (List.map_filter (placeholder_of rf md) es))"
proof (induction es)
  case Nil
  then show ?case by (simp add: List.map_filter_simps)
next
  case (Cons e es)
  then have ih: "distinct (map fst (List.map_filter (placeholder_of rf md) es))"
    and ne0: "fst (snd e) \<notin> (\<lambda>e. fst (snd e)) ` set es" by simp_all
  from ne0 have ne: "\<forall>e' \<in> set es. fst (snd e') \<noteq> fst (snd e)" by (metis image_eqI)
  show ?case
  proof (cases "placeholder_of rf md e")
    case None
    with ih show ?thesis by (simp add: List.map_filter_simps)
  next
    case (Some p)
    then have p: "fst p = js ''MERMAID_PLACEHOLDER_'' @ fst (snd e)"
      by (auto simp: placeholder_of_def)
    have "fst p \<notin> fst ` set (List.map_filter (placeholder_of rf md) es)"
    proof
      assume "fst p \<in> fst ` set (List.map_filter (placeholder_of rf md) es)"
      then obtain q e' where "e' \<in> set es" "placeholder_of rf md e' = Some q" "fst q = fst p"
        by (auto simp: set_map_filter)
      with p ne show False by (auto simp: placeholder_of_def)
    qed
    with ih Some show ?thesis by (simp add: List.map_filter_simps)
  qed
qed

lemma svg_html_shape:
  "svg_html rf path \<noteq> [] \<and> hd (svg_html rf path) = 0x3C \<and> last (svg_html rf path) = 0x3E"
  by (simp add: svg_html_def failed_notice_def js_def split: option.splits)

lemma placeholder_of_shape:
  assumes "p \<in> set (List.map_filter (placeholder_of rf md) es)"
  shows "fst p \<noteq> [] \<and> snd p \<noteq> [] \<and> hd (snd p) = 0x3C \<and> last (snd p) = 0x3E"
proof -
  from assms obtain e where "placeholder_of rf md e = Some p" by (auto simp: set_map_filter)
  then obtain m where "p = (js ''MERMAID_PLACEHOLDER_'' @ fst (snd e), svg_html rf (snd (snd e)))"
    by (auto simp: placeholder_of_def)
  with svg_html_shape[of rf "snd (snd e)"] show ?thesis by (simp add: js_def)
qed





subsection \<open>First occurrences under a replacement\<close>

text \<open>
  A token \<open>t\<close> is \<open>inert\<close> for a text \<open>v\<close> when putting \<open>v\<close> into a string cannot make a new
  occurrence of \<open>t\<close>: \<open>t\<close> holds neither the first nor the last character of \<open>v\<close> and does
  not occur in \<open>v\<close>. \<open>disjoint_first h t u\<close>: the first occurrences of \<open>t\<close> and \<open>u\<close> in \<open>h\<close>, if
  both are there, do not overlap.
\<close>

definition inert :: "'a list \<Rightarrow> 'a list \<Rightarrow> bool" where
  "inert t v \<longleftrightarrow> t \<noteq> [] \<and> v \<noteq> [] \<and> hd v \<notin> set t \<and> last v \<notin> set t \<and> find_sub t v = None"

definition disjoint_first :: "'a list \<Rightarrow> 'a list \<Rightarrow> 'a list \<Rightarrow> bool" where
  "disjoint_first h t u \<longleftrightarrow>
     (case find_sub t h of
        None \<Rightarrow> True
      | Some p \<Rightarrow>
          (case find_sub u h of
             None \<Rightarrow> True
           | Some q \<Rightarrow> p + length t \<le> q \<or> q + length u \<le> p))"

lemma prefix_nth: "prefix t s \<Longrightarrow> k < length t \<Longrightarrow> s ! k = t ! k"
  by (auto simp: prefix_def nth_append)

lemma inert_occurrence:
  assumes "inert t v" and p: "prefix t (drop i (a @ v @ b))"
  shows "i + length t \<le> length a \<or> length a + length v \<le> i"
proof (rule ccontr)
  assume "\<not> ?thesis"
  then have over: "length a < i + length t" and i: "i < length a + length v" by simp_all
  from assms(1) have t: "t \<noteq> []" and v: "v \<noteq> []" and h: "hd v \<notin> set t" and l: "last v \<notin> set t"
    and ns: "\<not> sublist t v" by (simp_all add: inert_def find_sub_None_sublist)
  from prefix_length_le[OF p] have len: "i + length t \<le> length (a @ v @ b)" using t
    by (cases "i \<le> length (a @ v @ b)") auto
  show False
  proof (cases "i \<le> length a")
    case True
    let ?k = "length a - i"
    from True over have k: "?k < length t" by simp
    have "drop i (a @ v @ b) ! ?k = (a @ v @ b) ! (i + ?k)" by (rule nth_drop) (use len in simp)
    with prefix_nth[OF p k] have "t ! ?k = (a @ v @ b) ! (i + ?k)" by simp
    also from True have "\<dots> = (v @ b) ! 0" by (simp add: nth_append)
    also from v have "\<dots> = hd v" by (simp add: nth_append hd_conv_nth)
    finally have "hd v \<in> set t" using k by (metis nth_mem)
    with h show False by simp
  next
    case False
    then have ia: "length a < i" by simp
    show False
    proof (cases "length a + length v \<le> i + length t")
      case True
      let ?k = "length a + length v - 1 - i"
      from True i v have k: "?k < length t" by (cases v) auto
      from i v ia have ik: "i + ?k = length a + (length v - 1)" by (cases v) auto
      have "drop i (a @ v @ b) ! ?k = (a @ v @ b) ! (i + ?k)" by (rule nth_drop) (use len in simp)
      with prefix_nth[OF p k] have "t ! ?k = (a @ v @ b) ! (i + ?k)" by simp
      also from v have "\<dots> = v ! (length v - 1)" unfolding ik by (simp add: nth_append)
      also from v have "\<dots> = last v" by (simp add: last_conv_nth)
      finally have "last v \<in> set t" using k by (metis nth_mem)
      with l show False by simp
    next
      case False
      let ?j = "i - length a"
      from ia i have d: "drop i (a @ v @ b) = drop ?j v @ b" by simp
      from False ia have "length t \<le> length (drop ?j v)" by simp
      with p have "prefix t (drop ?j v)" unfolding d by (simp only: prefix_append_short)
      then have "sublist t (drop ?j v)" by (rule prefix_imp_sublist)
      moreover have "sublist (drop ?j v) v" by simp
      ultimately have "sublist t v" by (rule sublist_order.order.trans)
      with ns show False by simp
    qed
  qed
qed

text \<open>
  Where the first occurrence of \<open>t\<close> is after the first occurrence of \<open>s\<close> has been
  replaced by \<open>v\<close>: where it was, moved by the difference of the lengths when it lay
  behind.
\<close>

lemma find_sub_after_replace:
  assumes s: "find_sub s h = Some p" and it: "inert t v"
    and dj: "disjoint_first h s t"
  shows "find_sub t (plain_replace h s v)
           = map_option (\<lambda>q. if q < p then q else q + length v - length s) (find_sub t h)"
proof -
  let ?a = "take p h" and ?b = "drop (p + length s) h"
  from find_sub_SomeD[OF s] have pl: "p + length s \<le> length h" and ps: "prefix s (drop p h)" by simp_all
  from ps pl have sm: "take (length s) (drop p h) = s" by (auto simp: prefix_def)
  have h: "h = ?a @ s @ ?b"
  proof -
    have "drop p h = take (length s) (drop p h) @ drop (length s) (drop p h)"
      by (simp only: append_take_drop_id)
    also have "drop (length s) (drop p h) = ?b" by (simp add: add.commute)
    finally have "drop p h = s @ ?b" using sm by simp
    then have "take p h @ drop p h = ?a @ s @ ?b" by simp
    then show ?thesis by (simp only: append_take_drop_id)
  qed
  have la: "length ?a = p" using pl by simp
  have r: "plain_replace h s v = ?a @ v @ ?b" by (simp add: plain_replace_def s)
  from it have t: "t \<noteq> []" by (simp add: inert_def)
  have old_left: "prefix t (drop i h) \<longleftrightarrow> prefix t (drop i ?a)" if "i + length t \<le> p" for i
    using prefix_drop_left[of i t ?a "s @ ?b"] that la h by simp
  have new_left: "prefix t (drop i (?a @ v @ ?b)) \<longleftrightarrow> prefix t (drop i ?a)" if "i + length t \<le> p" for i
    using prefix_drop_left[of i t ?a "v @ ?b"] that la by simp
  have old_right: "prefix t (drop (p + length s + j) h) \<longleftrightarrow> prefix t (drop j ?b)" for j
    by (simp add: add.commute)
  have new_right: "prefix t (drop (p + length v + j) (?a @ v @ ?b)) \<longleftrightarrow> prefix t (drop j ?b)" for j
    using la by simp
  have new_cases: "i + length t \<le> p \<or> p + length v \<le> i" if "prefix t (drop i (?a @ v @ ?b))" for i
    using inert_occurrence[OF it that] la by auto
  show ?thesis
  proof (cases "find_sub t h")
    case None
    then have no: "\<And>i. \<not> prefix t (drop i h)" by (simp add: find_sub_None_iff)
    have "\<not> prefix t (drop i (?a @ v @ ?b))" for i
    proof
      assume pi: "prefix t (drop i (?a @ v @ ?b))"
      from new_cases[OF pi] show False
      proof
        assume l: "i + length t \<le> p"
        with pi new_left old_left no show False by blast
      next
        assume "p + length v \<le> i"
        then obtain j where j: "i = p + length v + j" using le_Suc_ex by blast
        from pi[unfolded j new_right] old_right[of j] no show False by blast
      qed
    qed
    then have "find_sub t (?a @ v @ ?b) = None" unfolding find_sub_None_iff by blast
    with None r show ?thesis by simp
  next
    case (Some q)
    from find_sub_SomeD[OF Some] have pq: "prefix t (drop q h)" by simp
    note first = find_sub_first[OF Some]
    from dj s Some have "q + length t \<le> p \<or> p + length s \<le> q"
      by (auto simp: disjoint_first_def)
    then show ?thesis
    proof
      assume l: "q + length t \<le> p"
      with t have qp: "q < p" by (cases t) auto
      have "find_sub t (?a @ v @ ?b) = Some q"
      proof (rule find_sub_SomeI)
        from pq l old_left new_left show "prefix t (drop q (?a @ v @ ?b))" by blast
      next
        fix j assume jq: "j < q"
        with l have jl: "j + length t \<le> p" by simp
        from first[OF jq] old_left[OF jl] new_left[OF jl]
        show "\<not> prefix t (drop j (?a @ v @ ?b))" by blast
      qed
      with Some r qp show ?thesis by simp
    next
      assume g: "p + length s \<le> q"
      then obtain k where k: "q = p + length s + k" using le_Suc_ex by blast
      have "find_sub t (?a @ v @ ?b) = Some (p + length v + k)"
      proof (rule find_sub_SomeI)
        from pq[unfolded k old_right] show "prefix t (drop (p + length v + k) (?a @ v @ ?b))"
          unfolding new_right .
      next
        fix j assume jq: "j < p + length v + k"
        show "\<not> prefix t (drop j (?a @ v @ ?b))"
        proof
          assume pj: "prefix t (drop j (?a @ v @ ?b))"
          from new_cases[OF pj] show False
          proof
            assume l: "j + length t \<le> p"
            with t have "j < q" using k by (cases t) auto
            from first[OF this] old_left[OF l] new_left[OF l] pj show False by blast
          next
            assume "p + length v \<le> j"
            then obtain j' where j': "j = p + length v + j'" using le_Suc_ex by blast
            with jq have "p + length s + j' < q" using k by simp
            from first[OF this] pj[unfolded j' new_right] old_right[of j'] show False by blast
          qed
        qed
      qed
      moreover from g have "\<not> q < p" by simp
      moreover from k have "q + length v - length s = p + length v + k" by simp
      ultimately show ?thesis using Some r by simp
    qed
  qed
qed

lemma disjoint_first_sym: "disjoint_first h t u \<Longrightarrow> disjoint_first h u t"
  by (auto simp: disjoint_first_def split: option.splits)

lemma disjoint_first_None: "find_sub t h = None \<Longrightarrow> disjoint_first h s t"
  "find_sub s h = None \<Longrightarrow> disjoint_first h s t"
  by (simp_all add: disjoint_first_def split: option.splits)

lemma plain_replace_commute_ordered:
  assumes s: "find_sub s h = Some p" and t: "find_sub t h = Some q" and o: "p + length s \<le> q"
    and tv: "inert t v" and sw: "inert s w"
  shows "plain_replace (plain_replace h s v) t w = plain_replace (plain_replace h t w) s v"
proof -
  from find_sub_SomeD[OF s] have pl: "p + length s \<le> length h" by simp
  from find_sub_SomeD[OF t] have ql: "q + length t \<le> length h" by simp
  from sw have sne: "s \<noteq> []" by (simp add: inert_def)
  with o have pq: "p < q" by (cases s) auto
  from o obtain k where k: "q = p + length s + k" using le_Suc_ex by blast
  from s t o have d1: "disjoint_first h s t" by (simp add: disjoint_first_def)
  from s t o have d2: "disjoint_first h t s" by (simp add: disjoint_first_def)
  have a: "find_sub t (plain_replace h s v) = Some (p + length v + k)"
    using find_sub_after_replace[OF s tv d1] t k by simp
  have b: "find_sub s (plain_replace h t w) = Some p"
    using find_sub_after_replace[OF t sw d2] s pq by simp
  note h1 = plain_replace_Some[OF s, of v]
  note h2 = plain_replace_Some[OF t, of w]
  have lp: "length (take p h) = p" using pl by simp
  have lq: "length (take q h) = q" using ql by simp
  have l: "plain_replace (plain_replace h s v) t w
             = take p h @ v @ take k (drop (p + length s) h) @ w @ drop (q + length t) h"
    using lp k by (simp add: plain_replace_Some[OF a] add.commute add.left_commute)
      (simp add: h1 lp add.commute add.left_commute)
  have r: "plain_replace (plain_replace h t w) s v
             = take p h @ v @ drop (p + length s) (take q h) @ w @ drop (q + length t) h"
    using lq pq o by (simp add: plain_replace_Some[OF b]) (simp add: h2 lq min_def)
  have "drop (p + length s) (take q h) = take k (drop (p + length s) h)"
    using k by (simp add: drop_take)
  with l r show ?thesis by simp
qed

lemma plain_replace_commute:
  assumes "disjoint_first h s t" and tv: "inert t v" and sw: "inert s w"
  shows "plain_replace (plain_replace h s v) t w = plain_replace (plain_replace h t w) s v"
proof (cases "find_sub s h")
  case None
  note sn = None
  show ?thesis
  proof (cases "find_sub t h")
    case None
    with sn show ?thesis by (simp add: plain_replace_def)
  next
    case (Some q)
    from find_sub_after_replace[OF Some sw disjoint_first_None(1)[OF sn]] sn
    have "find_sub s (plain_replace h t w) = None" by simp
    then have "plain_replace (plain_replace h t w) s v = plain_replace h t w"
      by (simp add: plain_replace_def)
    moreover from sn have "plain_replace h s v = h" by (simp add: plain_replace_def)
    ultimately show ?thesis by simp
  qed
next
  case (Some p)
  note sp = Some
  show ?thesis
  proof (cases "find_sub t h")
    case None
    from find_sub_after_replace[OF sp tv disjoint_first_None(1)[OF None]] None
    have "find_sub t (plain_replace h s v) = None" by simp
    then have "plain_replace (plain_replace h s v) t w = plain_replace h s v"
      by (simp add: plain_replace_def)
    moreover from None have "plain_replace h t w = h" by (simp add: plain_replace_def)
    ultimately show ?thesis by simp
  next
    case (Some q)
    from assms(1) sp Some have "p + length s \<le> q \<or> q + length t \<le> p"
      by (simp add: disjoint_first_def)
    then show ?thesis
    proof
      assume "p + length s \<le> q"
      from plain_replace_commute_ordered[OF sp Some this tv sw] show ?thesis .
    next
      assume "q + length t \<le> p"
      from plain_replace_commute_ordered[OF Some sp this sw tv] show ?thesis by simp
    qed
  qed
qed

lemma disjoint_first_replace:
  assumes st: "disjoint_first h s t" and su: "disjoint_first h s u" and tu: "disjoint_first h t u"
    and tv: "inert t v" and uv: "inert u v"
  shows "disjoint_first (plain_replace h s v) t u"
proof (cases "find_sub s h")
  case None
  then have "plain_replace h s v = h" by (simp add: plain_replace_def)
  with tu show ?thesis by simp
next
  case (Some p)
  have ft: "find_sub t (plain_replace h s v)
           = map_option (\<lambda>q. if q < p then q else q + length v - length s) (find_sub t h)"
    by (rule find_sub_after_replace[OF Some tv st])
  have fu: "find_sub u (plain_replace h s v)
           = map_option (\<lambda>q. if q < p then q else q + length v - length s) (find_sub u h)"
    by (rule find_sub_after_replace[OF Some uv su])
  from tv uv have ne: "t \<noteq> []" "u \<noteq> []" by (simp_all add: inert_def)
  show ?thesis
  proof (cases "find_sub t h")
    case None
    with ft show ?thesis by (simp add: disjoint_first_def)
  next
    case (Some q)
    note tq = Some
    show ?thesis
    proof (cases "find_sub u h")
      case None
      with fu show ?thesis by (simp add: disjoint_first_def split: option.splits)
    next
      case (Some q')
      from st \<open>find_sub s h = Some p\<close> tq have a: "p + length s \<le> q \<or> q + length t \<le> p"
        by (simp add: disjoint_first_def)
      from su \<open>find_sub s h = Some p\<close> Some have b: "p + length s \<le> q' \<or> q' + length u \<le> p"
        by (simp add: disjoint_first_def)
      from tu tq Some have c: "q + length t \<le> q' \<or> q' + length u \<le> q"
        by (simp add: disjoint_first_def)
      from ne have lt: "0 < length t" "0 < length u" by simp_all
      from a b c lt show ?thesis
        unfolding disjoint_first_def ft fu tq Some by (simp; linarith)
    qed
  qed
qed

subsection \<open>One token after the other\<close>

text \<open>
  \<open>substitute_all ps h\<close> replaces, for each pair of \<open>ps\<close> in turn, the first occurrence of
  the token by the text. For pairs with different tokens that are inert for each
  other's texts and whose first occurrences in \<open>h\<close> do not overlap, the result does not
  depend on the order of \<open>ps\<close>.
\<close>

definition substitute_all :: "(jsstring \<times> jsstring) list \<Rightarrow> jsstring \<Rightarrow> jsstring" where
  "substitute_all ps h = fold (\<lambda>p acc. plain_replace acc (fst p) (snd p)) ps h"

definition inert_set :: "(jsstring \<times> jsstring) set \<Rightarrow> bool" where
  "inert_set S \<longleftrightarrow> (\<forall>p \<in> S. \<forall>q \<in> S. fst q \<noteq> fst p \<longrightarrow> inert (fst q) (snd p))"

definition disjoint_set :: "(jsstring \<times> jsstring) set \<Rightarrow> jsstring \<Rightarrow> bool" where
  "disjoint_set S h \<longleftrightarrow> (\<forall>p \<in> S. \<forall>q \<in> S. fst q \<noteq> fst p \<longrightarrow> disjoint_first h (fst p) (fst q))"

lemma substitute_all_simps [simp]:
  "substitute_all [] h = h"
  "substitute_all (p # ps) h = substitute_all ps (plain_replace h (fst p) (snd p))"
  "substitute_all (ps @ qs) h = substitute_all qs (substitute_all ps h)"
  by (simp_all add: substitute_all_def)

lemma inert_set_mono: "inert_set S \<Longrightarrow> S' \<subseteq> S \<Longrightarrow> inert_set S'"
  unfolding inert_set_def by blast

lemma disjoint_set_mono: "disjoint_set S h \<Longrightarrow> S' \<subseteq> S \<Longrightarrow> disjoint_set S' h"
  unfolding disjoint_set_def by blast

lemma disjoint_set_step:
  assumes i: "inert_set S" and d: "disjoint_set S h" and x: "x \<in> S" and sub: "S' \<subseteq> S"
    and ne: "\<forall>p \<in> S'. fst p \<noteq> fst x"
  shows "disjoint_set S' (plain_replace h (fst x) (snd x))"
  unfolding disjoint_set_def
proof (intro ballI impI)
  fix p q assume p: "p \<in> S'" and q: "q \<in> S'" and pq: "fst q \<noteq> fst p"
  from p q sub have pS: "p \<in> S" and qS: "q \<in> S" by auto
  from ne p q have px: "fst p \<noteq> fst x" and qx: "fst q \<noteq> fst x" by auto
  from d x pS px have 1: "disjoint_first h (fst x) (fst p)" unfolding disjoint_set_def by blast
  from d x qS qx have 2: "disjoint_first h (fst x) (fst q)" unfolding disjoint_set_def by blast
  from d pS qS pq have 3: "disjoint_first h (fst p) (fst q)" unfolding disjoint_set_def by blast
  from i x pS px have 4: "inert (fst p) (snd x)" unfolding inert_set_def by blast
  from i x qS qx have 5: "inert (fst q) (snd x)" unfolding inert_set_def by blast
  from disjoint_first_replace[OF 1 2 3 4 5]
  show "disjoint_first (plain_replace h (fst x) (snd x)) (fst p) (fst q)" .
qed

lemma substitute_all_move_front:
  assumes "\<forall>a \<in> set as. fst a \<noteq> fst x" and "distinct (map fst as)"
    and "inert_set (insert x (set as))" and "disjoint_set (insert x (set as)) h"
  shows "substitute_all (as @ [x]) h = substitute_all (x # as) h"
  using assms
proof (induction as arbitrary: h)
  case Nil
  then show ?case by simp
next
  case (Cons a as)
  let ?S = "insert x (set (a # as))"
  let ?S' = "insert x (set as)"
  from Cons.prems(1) have ax: "fst a \<noteq> fst x" and rest: "\<forall>a \<in> set as. fst a \<noteq> fst x" by simp_all
  from Cons.prems(2) have na: "fst a \<notin> fst ` set as" and dr: "distinct (map fst as)"
    by simp_all
  from na have da: "\<forall>p \<in> set as. fst p \<noteq> fst a" by (metis image_eqI)
  have sub: "?S' \<subseteq> ?S" by auto
  from da ax have ne: "\<forall>p \<in> ?S'. fst p \<noteq> fst a" by auto
  have "a \<in> ?S" by simp
  from disjoint_set_step[OF Cons.prems(3,4) this sub ne]
  have d': "disjoint_set ?S' (plain_replace h (fst a) (snd a))" .
  from Cons.prems(4) ax have 1: "disjoint_first h (fst a) (fst x)"
    unfolding disjoint_set_def by auto
  from Cons.prems(3) ax have 2: "inert (fst x) (snd a)" and 3: "inert (fst a) (snd x)"
    unfolding inert_set_def by auto
  have "substitute_all ((a # as) @ [x]) h
          = substitute_all (as @ [x]) (plain_replace h (fst a) (snd a))" by simp
  also have "\<dots> = substitute_all (x # as) (plain_replace h (fst a) (snd a))"
    by (rule Cons.IH[OF rest dr inert_set_mono[OF Cons.prems(3) sub] d'])
  also have "\<dots> = substitute_all as
                      (plain_replace (plain_replace h (fst a) (snd a)) (fst x) (snd x))" by simp
  also have "\<dots> = substitute_all as
                      (plain_replace (plain_replace h (fst x) (snd x)) (fst a) (snd a))"
    by (simp only: plain_replace_commute[OF 1 2 3])
  also have "\<dots> = substitute_all (x # a # as) h" by simp
  finally show ?case .
qed

lemma substitute_all_permute:
  assumes "distinct (map fst xs)" and "distinct (map fst ys)" and "set xs = set ys"
    and "inert_set (set xs)" and "disjoint_set (set xs) h"
  shows "substitute_all xs h = substitute_all ys h"
  using assms
proof (induction xs arbitrary: ys h)
  case Nil
  then show ?case by simp
next
  case (Cons x xs)
  from Cons.prems(3) have "x \<in> set ys" by auto
  then obtain as bs where ys: "ys = as @ x # bs" by (auto dest: split_list)
  from Cons.prems(2) ys have dab: "distinct (map fst (as @ bs))"
    and nxa: "fst x \<notin> fst ` set as" and nxb: "fst x \<notin> fst ` set bs"
    by auto
  from nxa have xa: "\<forall>a \<in> set as. fst a \<noteq> fst x" by (metis image_eqI)
  from nxb have xb: "\<forall>a \<in> set bs. fst a \<noteq> fst x" by (metis image_eqI)
  from Cons.prems(1) have dx: "distinct (map fst xs)" and nxx: "fst x \<notin> fst ` set xs"
    by simp_all
  from nxx have xx: "\<forall>a \<in> set xs. fst a \<noteq> fst x" by (metis image_eqI)
  from xa xb have "x \<notin> set (as @ bs)" by auto
  moreover from xx have "x \<notin> set xs" by auto
  moreover from Cons.prems(3) ys have "insert x (set xs) = insert x (set (as @ bs))" by auto
  ultimately have se: "set xs = set (as @ bs)" by (metis insert_ident)
  have subx: "set xs \<subseteq> set (x # xs)" by auto
  have suba: "insert x (set as) \<subseteq> set (x # xs)" using se by auto
  have da: "distinct (map fst as)" using dab by simp
  have mf: "substitute_all (as @ [x]) h = substitute_all (x # as) h"
    by (rule substitute_all_move_front[OF xa da inert_set_mono[OF Cons.prems(4) suba]
          disjoint_set_mono[OF Cons.prems(5) suba]])
  have "x \<in> set (x # xs)" by simp
  from disjoint_set_step[OF Cons.prems(4,5) this subx xx]
  have d': "disjoint_set (set xs) (plain_replace h (fst x) (snd x))" .
  have "substitute_all ys h = substitute_all bs (substitute_all (as @ [x]) h)"
    unfolding ys by simp
  also have "\<dots> = substitute_all (as @ bs) (plain_replace h (fst x) (snd x))"
    unfolding mf by simp
  also have "\<dots> = substitute_all xs (plain_replace h (fst x) (snd x))"
    by (rule Cons.IH[OF dx dab se inert_set_mono[OF Cons.prems(4) subx] d', symmetric])
  finally show ?case by simp
qed

lemma fold_replace_first_plain:
  "\<forall>p \<in> set ps. 0x24 \<notin> set (snd p) \<Longrightarrow>
     fold (\<lambda>(ph, svgHtml) acc. replace_first acc ph svgHtml) ps h = substitute_all ps h"
  by (induction ps arbitrary: h) (auto simp: replace_first_plain)









subsection \<open>The iteration order of the outcomes map\<close>

text \<open>
  \<open>order_safe ps h\<close> holds for the registered placeholders \<open>ps\<close> and the engine's HTML \<open>h\<close>
  when nothing makes the substitution of one placeholder depend on that of another: no
  token holds \<^verbatim>\<open><\<close> or \<^verbatim>\<open>>\<close> (every diagram's HTML begins with the one and ends with the
  other), no diagram's HTML holds \<^verbatim>\<open>$\<close> (which \<^verbatim>\<open>replace\<close> would read as a pattern) or the
  token of another diagram, and in \<open>h\<close> the first occurrences of two different tokens do
  not overlap.
\<close>

definition order_safe :: "(jsstring \<times> jsstring) list \<Rightarrow> jsstring \<Rightarrow> bool" where
  "order_safe ps h \<longleftrightarrow>
     (\<forall>p \<in> set ps. 0x3C \<notin> set (fst p) \<and> 0x3E \<notin> set (fst p) \<and> 0x24 \<notin> set (snd p))
     \<and> (\<forall>p \<in> set ps. \<forall>q \<in> set ps. fst q \<noteq> fst p \<longrightarrow>
           find_sub (fst q) (snd p) = None \<and> disjoint_first h (fst p) (fst q))"

lemma distinct_ids_permuted:
  assumes "distinct (map fst es)" and "distinct (map fst es')" and "set es' = set es"
    and "distinct (map f es)"
  shows "distinct (map f es')"
proof -
  from assms(4) have "inj_on f (set es)" by (simp add: distinct_map)
  moreover from assms(2) have "distinct es'" by (simp add: distinct_map)
  ultimately show ?thesis using assms(3) by (simp add: distinct_map)
qed

lemma final_html_order_independent:
  assumes k: "distinct (map fst es)" and k': "distinct (map fst es')" and s: "set es' = set es"
    and ids: "distinct (map (\<lambda>e. fst (snd e)) es)"
    and safe: "order_safe (fst (collect rf md es ([], []))) h"
  shows "fold (\<lambda>(ph, svgHtml) acc. replace_first acc ph svgHtml) (fst (collect rf md es' ([], []))) h
       = fold (\<lambda>(ph, svgHtml) acc. replace_first acc ph svgHtml) (fst (collect rf md es ([], []))) h"
proof -
  let ?ps = "List.map_filter (placeholder_of rf md) es"
  let ?ps' = "List.map_filter (placeholder_of rf md) es'"
  from distinct_ids_permuted[OF k k' s ids] have ids': "distinct (map (\<lambda>e. fst (snd e)) es')" .
  have c: "fst (collect rf md es ([], [])) = ?ps" using fst_collect[OF ids, of "[]"] by simp
  have c': "fst (collect rf md es' ([], [])) = ?ps'" using fst_collect[OF ids', of "[]"] by simp
  have se: "set ?ps' = set ?ps" using s by (simp add: set_map_filter)
  note d = distinct_placeholders[OF ids, of rf md]
  note d' = distinct_placeholders[OF ids', of rf md]
  from safe have plain: "\<forall>p \<in> set ?ps. 0x24 \<notin> set (snd p)"
    and tok: "\<forall>p \<in> set ?ps. 0x3C \<notin> set (fst p) \<and> 0x3E \<notin> set (fst p)"
    and pair: "\<forall>p \<in> set ?ps. \<forall>q \<in> set ?ps. fst q \<noteq> fst p \<longrightarrow>
           find_sub (fst q) (snd p) = None \<and> disjoint_first h (fst p) (fst q)"
    unfolding order_safe_def c by blast+
  have i: "inert_set (set ?ps)"
    unfolding inert_set_def inert_def
  proof (intro ballI impI)
    fix p q assume p: "p \<in> set ?ps" and q: "q \<in> set ?ps" and ne: "fst q \<noteq> fst p"
    from placeholder_of_shape[OF p] placeholder_of_shape[OF q] tok q pair p ne
    show "fst q \<noteq> [] \<and> snd p \<noteq> [] \<and> hd (snd p) \<notin> set (fst q) \<and> last (snd p) \<notin> set (fst q)
          \<and> find_sub (fst q) (snd p) = None" by auto
  qed
  from pair have dj: "disjoint_set (set ?ps) h" unfolding disjoint_set_def by blast
  from plain se have plain': "\<forall>p \<in> set ?ps'. 0x24 \<notin> set (snd p)" by simp
  have "substitute_all ?ps' h = substitute_all ?ps h"
    by (rule substitute_all_permute[OF d d' se[symmetric] i dj, symmetric])
  with fold_replace_first_plain[OF plain] fold_replace_first_plain[OF plain'] c c'
  show ?thesis by simp
qed

text \<open>
  C2 (as amended). For two listings of the same outcomes map (the same entries, each
  key once, in any two orders): the collected splices are those of the entries that name
  a fence, they are applied in strictly descending order of their start offsets, and the
  sorted array of splices and the placeholder-bearing text handed to the markdown engine
  are the same for both listings. The output of \<open>convertMarkdownToHtml\<close> is the same for
  both listings when the entries have different diagram ids and the registered
  placeholders are \<open>order_safe\<close> for the engine's HTML.
\<close>

theorem C2_output_order_independent:
  assumes "distinct (map fst es)" and "distinct (map fst es')" and "set es' = set es"
  shows "(distinct (map (\<lambda>e. fst (snd e)) es)
            \<and> order_safe (fst (collect rf md es ([], []))) (mm (processed_content rf md es))
          \<longrightarrow> convertMarkdownToHtml mm hl rf md es' = convertMarkdownToHtml mm hl rf md es)
       \<and> sort_desc (snd (collect rf md es' ([], []))) = sort_desc (snd (collect rf md es ([], [])))
       \<and> set (sort_desc (snd (collect rf md es ([], [])))) = {r. \<exists>e \<in> set es. rep_of md e = Some r}
       \<and> sorted_wrt (\<lambda>a b. r_start b < r_start a) (sort_desc (snd (collect rf md es ([], []))))
       \<and> processed_content rf md es' = processed_content rf md es"
proof -
  have s: "set (List.map_filter (rep_of md) es') = set (List.map_filter (rep_of md) es)"
    using assms(3) by (simp add: set_map_filter)
  from sort_desc_unique[OF s distinct_starts[OF assms(2)] distinct_starts[OF assms(1)]]
  have eq: "sort_desc (snd (collect rf md es' ([], []))) = sort_desc (snd (collect rf md es ([], [])))"
    by (simp add: snd_collect)
  have se: "set (sort_desc (snd (collect rf md es ([], [])))) = {r. \<exists>e \<in> set es. rep_of md e = Some r}"
    by (simp add: snd_collect sort_desc_def set_map_filter)
  from sort_desc_strict[OF distinct_starts[OF assms(1)]]
  have st: "sorted_wrt (\<lambda>a b. r_start b < r_start a) (sort_desc (snd (collect rf md es ([], []))))"
    by (simp add: snd_collect)
  from eq have pc: "processed_content rf md es' = processed_content rf md es"
    by (simp add: processed_content_def)
  have out: "convertMarkdownToHtml mm hl rf md es' = convertMarkdownToHtml mm hl rf md es"
    if ids: "distinct (map (\<lambda>e. fst (snd e)) es)"
      and safe: "order_safe (fst (collect rf md es ([], []))) (mm (processed_content rf md es))"
  proof -
    from final_html_order_independent[OF assms ids safe]
    have "final_html mm rf md es' = final_html mm rf md es"
      by (simp add: final_html_def pc)
    then show ?thesis by (simp add: convertMarkdownToHtml_final_html)
  qed
  from out eq se st pc show ?thesis by blast
qed

text \<open>
  Stand-ins for the external collaborators in the examples: a markdown engine that
  renders one line of plain words as a paragraph, a highlighter that knows no language,
  texts with two and with three diagram fences on what is, once the fences are replaced,
  one line, and a file system that holds the SVG of the first diagram only.
\<close>

definition para :: "jsstring \<Rightarrow> jsstring" where
  "para s = js ''<p>'' @ s @ js ''</p>''"

definition hl_none :: highlighter where
  "hl_none = \<lparr>createHighlighter_ok = True, codeToHtml = (\<lambda>c l. None)\<rparr>"

definition two_fences :: jsstring where
  "two_fences = js ''```mermaid\<newline>A\<newline>``` ```mermaid\<newline>B\<newline>```''"

definition three_fences :: jsstring where
  "three_fences =
     js ''```mermaid\<newline>A\<newline>``` ```mermaid\<newline>B\<newline>``` ```mermaid\<newline>C\<newline>```''"

definition one_svg :: "jsstring \<Rightarrow> jsstring option" where
  "one_svg p = (if p = js ''/tmp/d/diagram_0.svg'' then Some (js ''<svg>A</svg>'') else None)"

theorem C2_witness:
  "convertMarkdownToHtml para hl_none one_svg three_fences
     [(34, js ''diagram_2'', []), (0, js ''diagram_0'', js ''/tmp/d/diagram_0.svg''),
      (17, js ''diagram_1'', [])]
   = Inr (wrapInHtmlDocument
       (js (''<p><div style='' @ [CHR 0x22] @ ''max-width: 100%; margin: 1em 0;'' @ [CHR 0x22]
            @ ''><svg>A</svg></div>''
            @ '' <p><em>[Mermaid diagram - rendering failed]</em></p>''
            @ '' <p><em>[Mermaid diagram - rendering failed]</em></p></p>'')) [])
   \<and> map r_start (sort_desc (snd (collect one_svg three_fences
         [(34, js ''diagram_2'', []), (0, js ''diagram_0'', js ''/tmp/d/diagram_0.svg''),
          (17, js ''diagram_1'', [])] ([], [])))) = [34, 17, 0]"
proof -
  let ?es = "[(0, js ''diagram_0'', js ''/tmp/d/diagram_0.svg''), (17, js ''diagram_1'', []),
              (34, js ''diagram_2'', [])] :: outcome list"
  let ?es' = "[(34, js ''diagram_2'', []), (0, js ''diagram_0'', js ''/tmp/d/diagram_0.svg''),
               (17, js ''diagram_1'', [])] :: outcome list"
  let ?out = "js (''<p><div style='' @ [CHR 0x22] @ ''max-width: 100%; margin: 1em 0;'' @ [CHR 0x22]
            @ ''><svg>A</svg></div>''
            @ '' <p><em>[Mermaid diagram - rendering failed]</em></p>''
            @ '' <p><em>[Mermaid diagram - rendering failed]</em></p></p>'')"
  have d: "distinct (map fst ?es)" "distinct (map fst ?es')" by simp_all
  have s: "set ?es' = set ?es" by auto
  have ids: "distinct (map (\<lambda>e. fst (snd e)) ?es)" by (simp add: js_def)
  have safe: "order_safe (fst (collect one_svg three_fences ?es ([], [])))
                (para (processed_content one_svg three_fences ?es))"
    by code_simp
  have f: "final_html para one_svg three_fences ?es = ?out" by code_simp
  have h: "highlightCodeBlocks hl_none ?out = Inr \<lparr>html = ?out, styles = []\<rparr>" by code_simp
  have r: "map r_start (sort_desc (snd (collect one_svg three_fences ?es ([], [])))) = [34, 17, 0]"
    by code_simp
  note t = C2_output_order_independent[OF d s, where rf = one_svg and md = three_fences
             and mm = para and hl = hl_none]
  from t ids safe
  have "convertMarkdownToHtml para hl_none one_svg three_fences ?es'
          = convertMarkdownToHtml para hl_none one_svg three_fences ?es" by blast
  moreover have "convertMarkdownToHtml para hl_none one_svg three_fences ?es
          = Inr (wrapInHtmlDocument ?out [])"
    unfolding convertMarkdownToHtml_final_html f h by simp
  moreover from t
  have "sort_desc (snd (collect one_svg three_fences ?es' ([], [])))
          = sort_desc (snd (collect one_svg three_fences ?es ([], [])))" by blast
  ultimately show ?thesis using r by simp
qed

text \<open>
  C2 as stated fails. The HTML of each diagram is put at the first occurrence of its
  placeholder token, one token after the other in the iteration order of the outcomes
  map. Here the SVG of the first diagram shows the text of the second diagram's token (a
  node label, say) and the second diagram failed to render. With the first diagram's
  entry first, the notice of the second lands inside the SVG of the first; with the
  entries the other way round it lands in place of the second fence.
\<close>

definition svg_files :: "jsstring \<Rightarrow> jsstring option" where
  "svg_files p =
     (if p = js ''/tmp/d/diagram_0.svg''
      then Some (js ''<svg><text>MERMAID_PLACEHOLDER_diagram_1</text></svg>'') else None)"

theorem C2_counterexample:
  "convertMarkdownToHtml para hl_none svg_files two_fences
     [(0, js ''diagram_0'', js ''/tmp/d/diagram_0.svg''), (17, js ''diagram_1'', [])]
   = Inr (wrapInHtmlDocument
       (js (''<p><div style='' @ [CHR 0x22] @ ''max-width: 100%; margin: 1em 0;'' @ [CHR 0x22]
            @ ''><svg><text><p><em>[Mermaid diagram - rendering failed]</em></p></text></svg></div>''
            @ '' MERMAID_PLACEHOLDER_diagram_1</p>'')) [])
   \<and> convertMarkdownToHtml para hl_none svg_files two_fences
     [(17, js ''diagram_1'', []), (0, js ''diagram_0'', js ''/tmp/d/diagram_0.svg'')]
   = Inr (wrapInHtmlDocument
       (js (''<p><div style='' @ [CHR 0x22] @ ''max-width: 100%; margin: 1em 0;'' @ [CHR 0x22]
            @ ''><svg><text>MERMAID_PLACEHOLDER_diagram_1</text></svg></div>''
            @ '' <p><em>[Mermaid diagram - rendering failed]</em></p></p>'')) [])"
proof -
  let ?a = "js (''<p><div style='' @ [CHR 0x22] @ ''max-width: 100%; margin: 1em 0;'' @ [CHR 0x22]
            @ ''><svg><text><p><em>[Mermaid diagram - rendering failed]</em></p></text></svg></div>''
            @ '' MERMAID_PLACEHOLDER_diagram_1</p>'')"
  let ?b = "js (''<p><div style='' @ [CHR 0x22] @ ''max-width: 100%; margin: 1em 0;'' @ [CHR 0x22]
            @ ''><svg><text>MERMAID_PLACEHOLDER_diagram_1</text></svg></div>''
            @ '' <p><em>[Mermaid diagram - rendering failed]</em></p></p>'')"
  have fa: "final_html para svg_files two_fences
              [(0, js ''diagram_0'', js ''/tmp/d/diagram_0.svg''), (17, js ''diagram_1'', [])] = ?a"
    by code_simp
  have fb: "final_html para svg_files two_fences
              [(17, js ''diagram_1'', []), (0, js ''diagram_0'', js ''/tmp/d/diagram_0.svg'')] = ?b"
    by code_simp
  have ha: "highlightCodeBlocks hl_none ?a = Inr \<lparr>html = ?a, styles = []\<rparr>"
    by code_simp
  have hb: "highlightCodeBlocks hl_none ?b = Inr \<lparr>html = ?b, styles = []\<rparr>"
    by code_simp
  show ?thesis
    unfolding convertMarkdownToHtml_final_html fa fb ha hb by simp
qed

text \<open>
  The other parts of \<open>order_safe\<close>, and the different diagram ids, are there for a
  reason each. Two entries with one diagram id share a placeholder, and the HTML of the
  entry that comes last is the one that stays. The token of \<^verbatim>\<open>diagram_1\<close> begins that of
  \<^verbatim>\<open>diagram_10\<close>: where the engine's HTML has the longer one first, the first occurrences
  overlap. \<^verbatim>\<open>$'\<close> in an SVG stands for the HTML that follows the token, which holds
  the other token or what has become of it. And a token that holds \<^verbatim>\<open><\<close> can come into
  being where a notice is put behind the text it begins with.
\<close>

definition svg_following :: "jsstring \<Rightarrow> jsstring option" where
  "svg_following p =
     (if p = js ''/tmp/d/diagram_0.svg'' then Some (js ''<svg>$'</svg>'') else None)"

lemma order_matters_same_id:
  "final_html para one_svg two_fences
     [(0, js ''diagram_0'', js ''/tmp/d/diagram_0.svg''), (17, js ''diagram_0'', [])]
   = js ''<p>'' @ failed_notice @ js '' MERMAID_PLACEHOLDER_diagram_0</p>''
   \<and> final_html para one_svg two_fences
     [(17, js ''diagram_0'', []), (0, js ''diagram_0'', js ''/tmp/d/diagram_0.svg'')]
   = js ''<p>'' @ svg_html one_svg (js ''/tmp/d/diagram_0.svg'')
       @ js '' MERMAID_PLACEHOLDER_diagram_0</p>''"
  by code_simp

lemma order_matters_overlapping_tokens:
  "final_html para (\<lambda>p. None) two_fences [(0, js ''diagram_10'', []), (17, js ''diagram_1'', [])]
   = js ''<p>'' @ failed_notice @ js '' '' @ failed_notice @ js ''</p>''
   \<and> final_html para (\<lambda>p. None) two_fences [(17, js ''diagram_1'', []), (0, js ''diagram_10'', [])]
   = js ''<p>'' @ failed_notice @ js ''0 MERMAID_PLACEHOLDER_diagram_1</p>''"
  by code_simp

lemma order_matters_dollar_pattern:
  "final_html para svg_following two_fences
     [(0, js ''diagram_0'', js ''/tmp/d/diagram_0.svg''), (17, js ''diagram_1'', [])]
   = js (''<p><div style='' @ [CHR 0x22] @ ''max-width: 100%; margin: 1em 0;'' @ [CHR 0x22]
         @ ''><svg> '') @ failed_notice @ js ''</p></svg></div> MERMAID_PLACEHOLDER_diagram_1</p>''
   \<and> final_html para svg_following two_fences
     [(17, js ''diagram_1'', []), (0, js ''diagram_0'', js ''/tmp/d/diagram_0.svg'')]
   = js (''<p><div style='' @ [CHR 0x22] @ ''max-width: 100%; margin: 1em 0;'' @ [CHR 0x22]
         @ ''><svg> '') @ failed_notice @ js ''</p></svg></div> '' @ failed_notice @ js ''</p>''"
  by code_simp

lemma order_matters_angle_bracket:
  "final_html para (\<lambda>p. None)
     (js ''MERMAID_PLACEHOLDER_q```mermaid\<newline>A\<newline>``` ```mermaid\<newline>B\<newline>```'')
     [(21, js ''a'', []), (38, js ''q<p>'', [])]
   = js ''<p>'' @ failed_notice @ js ''<em>[Mermaid diagram - rendering failed]</em></p>''
       @ js '' MERMAID_PLACEHOLDER_q<p></p>''
   \<and> final_html para (\<lambda>p. None)
     (js ''MERMAID_PLACEHOLDER_q```mermaid\<newline>A\<newline>``` ```mermaid\<newline>B\<newline>```'')
     [(38, js ''q<p>'', []), (21, js ''a'', [])]
   = js ''<p>MERMAID_PLACEHOLDER_q'' @ failed_notice @ js '' '' @ failed_notice @ js ''</p>''"
  by code_simp

section \<open>The top-level conversion\<close>

text \<open>
  The render loop of \<^verbatim>\<open>convert\<close>: one call of the renderer per diagram, in order. A path
  that is returned goes into the outcomes map under the diagram's start offset; for
  \<^verbatim>\<open>null\<close> (and for an empty path, which \<^verbatim>\<open>if (imagePath)\<close> treats alike) the entry has
  the empty path. An exception of the renderer leaves the loop and \<^verbatim>\<open>convert\<close>.
\<close>

fun render_all ::
  "os \<Rightarrow> world \<Rightarrow> DiagramInfo list \<Rightarrow> outcome list \<Rightarrow> (error + outcome list) \<times> world" where
  "render_all sys w [] imageReplacements = (Inr imageReplacements, w)"
| "render_all sys w (d # ds) imageReplacements =
     (case renderMermaidToSvg sys w (mermaidCode d) (diagramId d) of
        (Inl e, w') \<Rightarrow> (Inl e, w')
      | (Inr imagePath, w') \<Rightarrow>
          (case imagePath of
             Some p \<Rightarrow>
               if p \<noteq> []
               then render_all sys w' ds (map_set (startPos d) (diagramId d, p) imageReplacements)
               else render_all sys w' ds (map_set (startPos d) (diagramId d, []) imageReplacements)
           | None \<Rightarrow>
               render_all sys w' ds (map_set (startPos d) (diagramId d, []) imageReplacements)))"

text \<open>
  \<^verbatim>\<open>markdownFile.replace(/\.md$/i, ".html")\<close>: the pattern matches only at the end of the
  path, and only the three characters \<^verbatim>\<open>.md\<close> in either case of the letters.
\<close>

definition is_md_ext :: "jsstring \<Rightarrow> bool" where
  "is_md_ext e \<longleftrightarrow>
     (case e of
        [a, b, c] \<Rightarrow> a = 0x2E \<and> (b = 0x6D \<or> b = 0x4D) \<and> (c = 0x64 \<or> c = 0x44)
      | _ \<Rightarrow> False)"

definition replace_md_suffix :: "jsstring \<Rightarrow> jsstring" where
  "replace_md_suffix markdownFile =
     (if is_md_ext (drop (length markdownFile - 3) markdownFile)
      then take (length markdownFile - 3) markdownFile @ js ''.html''
      else markdownFile)"

text \<open>
  \<^verbatim>\<open>convert\<close>. The result is \<open>None\<close> when the extractor does not return; otherwise it is
  the exception that leaves the method or the returned path, with the world as it is
  then. The log lines of the converter are not modelled.
\<close>

definition convert ::
  "(jsstring \<Rightarrow> jsstring) \<Rightarrow> highlighter \<Rightarrow> os \<Rightarrow> world \<Rightarrow> jsstring \<Rightarrow> jsstring option
     \<Rightarrow> ((error + jsstring) \<times> world) option" where
  "convert micromark hl sys w markdownFile outputFile =
     (case files w markdownFile of
        None \<Rightarrow> Some (Inl FsError, w)
      | Some markdownContent \<Rightarrow>
          (case extractMermaidDiagrams markdownContent of
             None \<Rightarrow> None
           | Some diagrams \<Rightarrow>
               (case render_all sys w diagrams [] of
                  (Inl e, w1) \<Rightarrow> Some (Inl e, w1)
                | (Inr imageReplacements, w1) \<Rightarrow>
                    (case convertMarkdownToHtml micromark hl (files w1) markdownContent
                            imageReplacements of
                       Inl e \<Rightarrow> Some (Inl e, w1)
                     | Inr htmlContent \<Rightarrow>
                         let output = (case outputFile of
                                         Some p \<Rightarrow> p
                                       | None \<Rightarrow> replace_md_suffix markdownFile);
                             w2 = w1\<lparr>trace := trace w1 @ [WriteFile output]\<rparr>
                         in if writeFile_ok sys output
                            then Some (Inr output, w2\<lparr>files := (files w2)(output \<mapsto> htmlContent)\<rparr>)
                            else Some (Inl FsError, w2)))))"

lemma convert_InrD:
  assumes "convert mm hl sys w markdownFile outputFile = Some (Inr out, w')"
  shows "out = (case outputFile of Some p \<Rightarrow> p | None \<Rightarrow> replace_md_suffix markdownFile)"
    and "\<exists>h. files w' out = Some h" and "trace w' \<noteq> [] \<and> last (trace w') = WriteFile out"
  using assms
  by (auto simp: convert_def Let_def
      split: option.splits sum.splits prod.splits if_splits)

lemma convert_writes_document:
  assumes "convert mm hl sys w markdownFile outputFile = Some (Inr out, w')"
  shows "\<exists>content st. files w' out = Some (wrapInHtmlDocument content st)"
  using assms convertMarkdownToHtml_is_document
  by (fastforce simp: convert_def Let_def
      split: option.splits sum.splits prod.splits if_splits)

lemma is_md_ext_iff:
  "is_md_ext e \<longleftrightarrow> e \<in> {js ''.md'', js ''.mD'', js ''.Md'', js ''.MD''}"
  by (auto simp: is_md_ext_def js_def split: list.splits)

lemma replace_md_suffix_ext:
  assumes "ext \<in> {js ''.md'', js ''.mD'', js ''.Md'', js ''.MD''}"
  shows "replace_md_suffix (stem @ ext) = stem @ js ''.html''"
proof -
  from assms have "length ext = 3" by auto
  then show ?thesis using assms by (simp add: replace_md_suffix_def is_md_ext_iff)
qed

lemma replace_md_suffix_other:
  assumes "\<forall>ext \<in> {js ''.md'', js ''.mD'', js ''.Md'', js ''.MD''}. \<not> suffix ext markdownFile"
  shows "replace_md_suffix markdownFile = markdownFile"
proof -
  have "suffix (drop (length markdownFile - 3) markdownFile) markdownFile"
    by (rule suffix_drop)
  with assms have "\<not> is_md_ext (drop (length markdownFile - 3) markdownFile)"
    unfolding is_md_ext_iff by blast
  then show ?thesis by (simp add: replace_md_suffix_def)
qed

text \<open>
  When \<open>convert\<close> returns, the path it returns is the one it wrote the document to last:
  the explicit output path if there is one; else, for an input path that ends in
  \<^verbatim>\<open>.md\<close> in either case of the two letters, the input path with \<^verbatim>\<open>.html\<close> in place of
  these three characters; and for any other input path the input path itself.
\<close>

lemma convert_returns_written_path:
  assumes "convert mm hl sys w markdownFile outputFile = Some (Inr out, w')"
  shows "(\<exists>content st. files w' out = Some (wrapInHtmlDocument content st))
       \<and> last (trace w') = WriteFile out
       \<and> (\<forall>p. outputFile = Some p \<longrightarrow> out = p)
       \<and> (\<forall>stem ext. outputFile = None \<and> markdownFile = stem @ ext
              \<and> ext \<in> {js ''.md'', js ''.mD'', js ''.Md'', js ''.MD''}
            \<longrightarrow> out = stem @ js ''.html'')
       \<and> (outputFile = None
            \<and> (\<forall>ext \<in> {js ''.md'', js ''.mD'', js ''.Md'', js ''.MD''}. \<not> suffix ext markdownFile)
            \<longrightarrow> out = markdownFile)"
proof -
  note d = convert_InrD[OF assms]
  from d(1) have a: "\<forall>p. outputFile = Some p \<longrightarrow> out = p" by simp
  from d(1) have b: "\<forall>stem ext. outputFile = None \<and> markdownFile = stem @ ext
              \<and> ext \<in> {js ''.md'', js ''.mD'', js ''.Md'', js ''.MD''}
            \<longrightarrow> out = stem @ js ''.html''"
    using replace_md_suffix_ext by auto
  from d(1) have c: "outputFile = None
            \<and> (\<forall>ext \<in> {js ''.md'', js ''.mD'', js ''.Md'', js ''.MD''}. \<not> suffix ext markdownFile)
            \<longrightarrow> out = markdownFile"
    using replace_md_suffix_other by auto
  from convert_writes_document[OF assms] d(3) a b c show ?thesis by blast
qed

text \<open>
  A world whose only file is the input, for the examples. Its text has no diagram and
  no code block; the engine stand-in makes one paragraph of it.
\<close>

definition world_with :: "jsstring \<Rightarrow> jsstring \<Rightarrow> world" where
  "world_with path content =
     \<lparr>tempDir = None, files = (\<lambda>p. if p = path then Some content else None), trace = []\<rparr>"

lemma convert_plain_text_example:
  "convert para hl_none (sys_demo True ExecResolved) (world_with path (js ''hi'')) path outputFile
   = Some (Inr (case outputFile of Some p \<Rightarrow> p | None \<Rightarrow> replace_md_suffix path),
           \<lparr>tempDir = None,
            files = (\<lambda>p. if p = path then Some (js ''hi'') else None)
                      ((case outputFile of Some p \<Rightarrow> p | None \<Rightarrow> replace_md_suffix path)
                         \<mapsto> wrapInHtmlDocument (js ''<p>hi</p>'') []),
            trace = [WriteFile (case outputFile of Some p \<Rightarrow> p
                                | None \<Rightarrow> replace_md_suffix path)]\<rparr>)"
proof -
  have e: "extractMermaidDiagrams (js ''hi'') = Some []" by code_simp
  have f: "final_html para rf (js ''hi'') [] = js ''<p>hi</p>''" for rf
    by (simp add: final_html_def processed_content_def sort_desc_def para_def js_def)
  have h: "highlightCodeBlocks hl_none (js ''<p>hi</p>'') = Inr \<lparr>html = js ''<p>hi</p>'', styles = []\<rparr>"
    by code_simp
  show ?thesis
    by (simp add: convert_def world_with_def e convertMarkdownToHtml_final_html f h Let_def
        sys_demo_def)
qed

lemma convert_md_example:
  "map_option fst
     (convert para hl_none (sys_demo True ExecResolved) (world_with (js ''README.MD'') (js ''hi''))
        (js ''README.MD'') None)
   = Some (Inr (js ''README.html''))"
proof -
  have "replace_md_suffix (js ''README'' @ js ''.MD'') = js ''README'' @ js ''.html''"
    by (rule replace_md_suffix_ext) simp
  then have "replace_md_suffix (js ''README.MD'') = js ''README.html''" by (simp add: js_def)
  with convert_plain_text_example[of "js ''README.MD''" None] show ?thesis by simp
qed

text \<open>
  C9. With no explicit output path, \<open>convert\<close> is to write to, and return, the input path
  with its extension replaced by \<^verbatim>\<open>.html\<close>. The code replaces a trailing \<^verbatim>\<open>.md\<close> only
  (\<^verbatim>\<open>markdownFile.replace(/\.md$/i, ".html")\<close>): for the input \<^verbatim>\<open>notes.txt\<close> the path is left
  as it is, the HTML document is written over the input file, \<^verbatim>\<open>notes.txt\<close> is returned,
  and no file \<^verbatim>\<open>notes.html\<close> comes into being.
\<close>

theorem C9_non_md_input_overwritten:
  "files (world_with (js ''notes.txt'') (js ''hi'')) (js ''notes.txt'') = Some (js ''hi'')
   \<and> map_option fst
       (convert para hl_none (sys_demo True ExecResolved) (world_with (js ''notes.txt'') (js ''hi''))
          (js ''notes.txt'') None)
     = Some (Inr (js ''notes.txt''))
   \<and> map_option (\<lambda>r. files (snd r) (js ''notes.txt''))
       (convert para hl_none (sys_demo True ExecResolved) (world_with (js ''notes.txt'') (js ''hi''))
          (js ''notes.txt'') None)
     = Some (Some (wrapInHtmlDocument (js ''<p>hi</p>'') []))
   \<and> map_option (\<lambda>r. files (snd r) (js ''notes.html''))
       (convert para hl_none (sys_demo True ExecResolved) (world_with (js ''notes.txt'') (js ''hi''))
          (js ''notes.txt'') None)
     = Some None"
proof -
  have r: "replace_md_suffix (js ''notes.txt'') = js ''notes.txt''"
    by (simp add: replace_md_suffix_def is_md_ext_def js_def)
  have n: "js ''notes.html'' \<noteq> js ''notes.txt''" by (simp add: js_def)
  show ?thesis
    unfolding convert_plain_text_example[of "js ''notes.txt''" None]
    using r n by (simp add: world_with_def)
qed

subsection \<open>Diagrams that failed to render\<close>















text \<open>
  In the render loop a diagram that fails to render does not stop the others: when every
  call of the renderer returns \<^verbatim>\<open>null\<close>, the loop ends with one failed entry per
  diagram.
\<close>

lemma render_all_failures_continue:
  assumes "\<And>w d. d \<in> set ds \<Longrightarrow>
             fst (renderMermaidToSvg sys w (mermaidCode d) (diagramId d)) = Inr None"
  shows "\<exists>w'. render_all sys w ds acc =
           (Inr (fold (\<lambda>d m. map_set (startPos d) (diagramId d, []) m) ds acc), w')"
  using assms
proof (induction ds arbitrary: w acc)
  case Nil
  then show ?case by simp
next
  case (Cons d ds)
  obtain r w1 where r: "renderMermaidToSvg sys w (mermaidCode d) (diagramId d) = (r, w1)"
    by (cases "renderMermaidToSvg sys w (mermaidCode d) (diagramId d)")
  with Cons.prems[of d w] have "r = Inr None" by simp
  with r Cons.IH[of w1 "map_set (startPos d) (diagramId d, []) acc"] Cons.prems
  show ?case by simp
qed




section \<open>The patterns against a backtracking matcher\<close>

text \<open>
  The two patterns of the converter are sequences of three kinds of terms: a literal
  text, a greedy repetition of a character class (\<^verbatim>\<open>\s*\<close>, \<^verbatim>\<open>\s+\<close>, \<^verbatim>\<open>[\w-]+\<close>, \<^verbatim>\<open>[^>]*\<close>)
  and a lazy repetition of a character class (\<^verbatim>\<open>[\s\S]*?\<close>). A backtracking matcher
  tries, for each term, the lengths it can take in a fixed order (a greedy repetition the
  longest first, a lazy one the shortest first) and, for each, the rest of the pattern
  on the rest of the text; the first success is the match. \<open>matches\<close> lists all
  successes in that order, as the lengths taken by the terms.
\<close>

datatype atom = Str jsstring | Greedy "jschar \<Rightarrow> bool" nat | Lazy "jschar \<Rightarrow> bool"

fun atom_lengths :: "atom \<Rightarrow> jsstring \<Rightarrow> nat list" where
  "atom_lengths (Str p) s = (if prefix p s then [length p] else [])"
| "atom_lengths (Greedy c n) s = rev [n..<Suc (length (takeWhile c s))]"
| "atom_lengths (Lazy c) s = [0..<Suc (length (takeWhile c s))]"

fun matches :: "atom list \<Rightarrow> jsstring \<Rightarrow> nat list list" where
  "matches [] s = [[]]"
| "matches (a # as) s =
     concat (map (\<lambda>l. map ((#) l) (matches as (drop l s))) (atom_lengths a s))"

definition backtrack :: "atom list \<Rightarrow> jsstring \<Rightarrow> nat list option" where
  "backtrack as s = (case matches as s of [] \<Rightarrow> None | ls # _ \<Rightarrow> Some ls)"

definition fence_pattern :: "atom list" where
  "fence_pattern =
     [Str (js ''```mermaid''), Greedy is_space 0, Str [LF], Lazy (\<lambda>c. True), Str (js ''```'')]"

definition code_pattern :: "atom list" where
  "code_pattern =
     [Str (js ''<pre><code''), Greedy is_space 1,
      Str (js (''class='' @ [CHR 0x22] @ ''language-'')),
      Greedy (\<lambda>c. is_word c \<or> c = 0x2D) 1, Str [0x22],
      Greedy (\<lambda>c. c \<noteq> 0x3E) 0, Str [0x3E],
      Lazy (\<lambda>c. True), Str (js ''</code></pre>'')]"

text \<open>The first success among the candidates of the first term.\<close>

fun first_some :: "('a \<Rightarrow> 'b option) \<Rightarrow> 'a list \<Rightarrow> 'b option" where
  "first_some f [] = None"
| "first_some f (x # xs) = (case f x of Some y \<Rightarrow> Some y | None \<Rightarrow> first_some f xs)"

lemma first_some_append:
  "first_some f (xs @ ys) = (case first_some f xs of Some y \<Rightarrow> Some y | None \<Rightarrow> first_some f ys)"
  by (induction xs) (auto split: option.splits)

lemma first_some_all_None: "(\<And>x. x \<in> set xs \<Longrightarrow> f x = None) \<Longrightarrow> first_some f xs = None"
  by (induction xs) auto

lemma backtrack_Nil [simp]: "backtrack [] s = Some []"
  by (simp add: backtrack_def)

lemma hd_concat_map:
  "(case concat (map g xs) of [] \<Rightarrow> None | y # _ \<Rightarrow> Some y) =
     first_some (\<lambda>x. case g x of [] \<Rightarrow> None | y # _ \<Rightarrow> Some y) xs"
proof (induction xs)
  case Nil
  then show ?case by simp
next
  case (Cons x xs)
  then show ?case by (cases "g x") simp_all
qed

lemma backtrack_Cons:
  "backtrack (a # as) s =
     first_some (\<lambda>l. map_option ((#) l) (backtrack as (drop l s))) (atom_lengths a s)"
proof -
  have "(\<lambda>l. case map ((#) l) (matches as (drop l s)) of [] \<Rightarrow> None | y # _ \<Rightarrow> Some y)
          = (\<lambda>l. map_option ((#) l) (backtrack as (drop l s)))"
    by (auto simp: backtrack_def fun_eq_iff split: list.splits)
  then show ?thesis
    unfolding backtrack_def matches.simps hd_concat_map by simp
qed

lemma backtrack_Str:
  "backtrack (Str p # as) s =
     (if prefix p s then map_option ((#) (length p)) (backtrack as (drop (length p) s)) else None)"
  by (simp add: backtrack_Cons split: option.splits)

text \<open>
  A lazy repetition of any character before a final literal stops at the first
  occurrence of the literal.
\<close>

lemma first_some_lazy_find_sub:
  "first_some (\<lambda>l. if prefix p (drop l s) then Some (g l) else None) [i..<Suc (length s)]
     = (if i \<le> length s then map_option (\<lambda>n. g (i + n)) (find_sub p (drop i s)) else None)"
proof (induction "length s - i" arbitrary: i)
  case 0
  show ?case
  proof (cases "i \<le> length s")
    case True
    with 0 have i: "i = length s" by simp
    then have "[i..<Suc (length s)] = [i]" by simp
    with i show ?thesis by simp
  next
    case False
    then show ?thesis by simp
  qed
next
  case (Suc k)
  then have lt: "i < length s" by simp
  then have u: "[i..<Suc (length s)] = i # [Suc i..<Suc (length s)]"
    by (simp add: upt_conv_Cons)
  from lt obtain x xs where d: "drop i s = x # xs" "drop (Suc i) s = xs"
    by (metis Cons_nth_drop_Suc)
  from Suc.hyps(2) have "k = length s - Suc i" by simp
  note ih = Suc.hyps(1)[OF this]
  show ?case
  proof (cases "prefix p (drop i s)")
    case True
    with u lt d show ?thesis by simp
  next
    case False
    with u lt d ih show ?thesis
      by (simp add: option.map_comp comp_def)
  qed
qed

lemma takeWhile_any: "takeWhile (\<lambda>c. True) s = s"
  by (induction s) auto

lemma backtrack_Lazy_last:
  "backtrack [Lazy (\<lambda>c. True), Str p] s = map_option (\<lambda>n. [n, length p]) (find_sub p s)"
proof -
  have "(\<lambda>l. map_option ((#) l) (backtrack [Str p] (drop l s)))
          = (\<lambda>l. if prefix p (drop l s) then Some [l, length p] else None)"
    by (auto simp: backtrack_Str fun_eq_iff)
  then show ?thesis
    using first_some_lazy_find_sub[of p s "\<lambda>l. [l, length p]" 0]
    by (simp add: backtrack_Cons takeWhile_any del: upt_Suc)
qed


text \<open>
  A greedy repetition before a rest of the pattern that cannot start with a character
  of the class takes its whole run: with fewer characters the rest would have to start
  with a character of the class.
\<close>

lemma nth_takeWhile_drop:
  assumes "l < length (takeWhile c s)"
  shows "\<exists>x t. drop l s = x # t \<and> c x"
proof -
  from assms have l: "l < length s" using length_takeWhile_le[of c s] by simp
  from assms have "c (takeWhile c s ! l)" using nth_mem set_takeWhileD by fastforce
  with assms have "c (s ! l)" by (simp add: takeWhile_nth)
  with l show ?thesis by (metis Cons_nth_drop_Suc)
qed

lemma backtrack_Greedy_blocked:
  assumes "\<And>x t. c x \<Longrightarrow> backtrack as (x # t) = None"
  shows "backtrack (Greedy c n # as) s =
           (if n \<le> length (takeWhile c s)
            then map_option ((#) (length (takeWhile c s)))
                   (backtrack as (drop (length (takeWhile c s)) s))
            else None)"
proof (cases "n \<le> length (takeWhile c s)")
  case False
  then show ?thesis by (simp add: backtrack_Cons)
next
  case True
  let ?m = "length (takeWhile c s)"
  let ?f = "\<lambda>l. map_option ((#) l) (backtrack as (drop l s))"
  from True have u: "rev [n..<Suc ?m] = ?m # rev [n..<?m]" by simp
  have "first_some ?f (rev [n..<?m]) = None"
  proof (rule first_some_all_None)
    fix l assume "l \<in> set (rev [n..<?m])"
    then have "l < ?m" by simp
    from nth_takeWhile_drop[OF this] assms show "?f l = None" by auto
  qed
  with True u show ?thesis
    by (simp add: backtrack_Cons split: option.splits del: upt_Suc)
qed

lemma backtrack_Str_blocked:
  "q \<noteq> [] \<Longrightarrow> \<not> c (hd q) \<Longrightarrow> c x \<Longrightarrow> backtrack (Str q # as) (x # t) = None"
  by (cases q) (auto simp: backtrack_Str)


subsection \<open>The code-block pattern\<close>

lemma take_length_takeWhile: "take (length (takeWhile P xs)) xs = takeWhile P xs"
  by (induction xs) auto

theorem code_at_backtrack:
  "code_at s =
     (case backtrack code_pattern s of
        Some [a, b, c, d, e, f, g, h, i] \<Rightarrow>
          Some (take (a + b + c + d + e + f + g + h + i) s,
                take d (drop (a + b + c) s),
                take h (drop (a + b + c + d + e + f + g) s))
      | _ \<Rightarrow> None)"
proof -
  let ?R8 = "[Lazy (\<lambda>c. True), Str (js ''</code></pre>'')]"
  let ?R7 = "Str [0x3E] # ?R8"
  let ?R6 = "Greedy (\<lambda>c. c \<noteq> 0x3E) 0 # ?R7"
  let ?R5 = "Str [0x22] # ?R6"
  let ?R4 = "Greedy (\<lambda>c. is_word c \<or> c = 0x2D) 1 # ?R5"
  let ?R3 = "Str (js (''class='' @ [CHR 0x22] @ ''language-'')) # ?R4"
  let ?R2 = "Greedy is_space 1 # ?R3"
  have l13: "length (js ''</code></pre>'') = 13" by simp
  have l16: "length (js (''class='' @ [CHR 0x22] @ ''language-'')) = 16" by simp
  have l10: "length (js ''<pre><code'') = 10" by simp
  have b8: "backtrack ?R8 t = map_option (\<lambda>n. [n, 13]) (find_sub (js ''</code></pre>'') t)" for t
    by (simp only: backtrack_Lazy_last l13)
  have b7: "backtrack ?R7 t =
              (if prefix [0x3E] t then map_option ((#) 1) (backtrack ?R8 (drop 1 t)) else None)" for t
    by (simp add: backtrack_Str)
  have b6: "backtrack ?R6 t =
              map_option ((#) (length (takeWhile (\<lambda>c. c \<noteq> 0x3E) t)))
                (backtrack ?R7 (drop (length (takeWhile (\<lambda>c. c \<noteq> 0x3E) t)) t))" for t
    by (subst backtrack_Greedy_blocked) (simp_all add: backtrack_Str)
  have b5: "backtrack ?R5 t =
              (if prefix [0x22] t then map_option ((#) 1) (backtrack ?R6 (drop 1 t)) else None)" for t
    by (simp add: backtrack_Str)
  have b4: "backtrack ?R4 t =
              (if 1 \<le> length (takeWhile (\<lambda>c. is_word c \<or> c = 0x2D) t)
               then map_option ((#) (length (takeWhile (\<lambda>c. is_word c \<or> c = 0x2D) t)))
                      (backtrack ?R5 (drop (length (takeWhile (\<lambda>c. is_word c \<or> c = 0x2D) t)) t))
               else None)" for t
    by (subst backtrack_Greedy_blocked) (auto simp: backtrack_Str is_word_def)
  have b3: "backtrack ?R3 t =
              (if prefix (js (''class='' @ [CHR 0x22] @ ''language-'')) t
               then map_option ((#) 16) (backtrack ?R4 (drop 16 t)) else None)" for t
    by (simp only: backtrack_Str l16)
  have b2: "backtrack ?R2 t =
              (if 1 \<le> length (takeWhile is_space t)
               then map_option ((#) (length (takeWhile is_space t)))
                      (backtrack ?R3 (drop (length (takeWhile is_space t)) t))
               else None)" for t
    by (subst backtrack_Greedy_blocked) (auto simp: backtrack_Str is_space_def js_def)
  have b1: "backtrack code_pattern t =
              (if prefix (js ''<pre><code'') t
               then map_option ((#) 10) (backtrack ?R2 (drop 10 t)) else None)" for t
    by (simp only: code_pattern_def backtrack_Str l10)
  define r1 where "r1 = drop 10 s"
  define ws where "ws = takeWhile is_space r1"
  define r2 where "r2 = drop (length ws) r1"
  define r3 where "r3 = drop 16 r2"
  define lang where "lang = takeWhile (\<lambda>c. is_word c \<or> c = 0x2D) r3"
  define r4 where "r4 = drop (length lang) r3"
  define r5 where "r5 = drop 1 r4"
  define attrs where "attrs = takeWhile (\<lambda>c. c \<noteq> 0x3E) r5"
  define r6 where "r6 = drop (length attrs) r5"
  define r7 where "r7 = drop 1 r6"
  note defs = r1_def ws_def r2_def r3_def lang_def r4_def r5_def attrs_def r6_def r7_def
  have d3: "drop (10 + length ws + 16) s = r3"
    by (simp add: r3_def r2_def r1_def add.commute add.left_commute)
  have d7: "drop (10 + length ws + 16 + length lang + 1 + length attrs + 1) s = r7"
    unfolding r7_def r6_def r5_def r4_def d3[symmetric]
    by (simp add: add.commute add.left_commute)
  have tl: "take (length lang) r3 = lang"
    by (simp add: lang_def take_length_takeWhile)
  have lhs: "code_at s =
     (if \<not> prefix (js ''<pre><code'') s then None
      else if ws = [] \<or> \<not> prefix (js (''class='' @ [CHR 0x22] @ ''language-'')) r2 then None
      else if lang = [] \<or> \<not> prefix [0x22] r4 then None
      else if \<not> prefix [0x3E] r6 then None
      else case find_sub (js ''</code></pre>'') r7 of
             None \<Rightarrow> None
           | Some n \<Rightarrow>
               Some (take (10 + length ws + 16 + length lang + 1 + length attrs + 1 + n + 13) s,
                     lang, take n r7))"
    unfolding code_at_def defs Let_def by (rule refl)
  have rhs: "backtrack code_pattern s =
     (if \<not> prefix (js ''<pre><code'') s then None
      else if ws = [] \<or> \<not> prefix (js (''class='' @ [CHR 0x22] @ ''language-'')) r2 then None
      else if lang = [] \<or> \<not> prefix [0x22] r4 then None
      else if \<not> prefix [0x3E] r6 then None
      else case find_sub (js ''</code></pre>'') r7 of
             None \<Rightarrow> None
           | Some n \<Rightarrow>
               Some [10, length ws, 16, length lang, 1, length attrs, 1, n, 13])"
    unfolding b1 b2 b3 b4 b5 b6 b7 b8 defs
    by (cases "find_sub (js ''</code></pre>'') r7")
      (auto simp: defs Suc_le_eq split: option.splits)
  show ?thesis
    unfolding lhs rhs using d3 d7 tl
    by (auto split: option.splits)
qed


subsection \<open>The diagram fence pattern\<close>

text \<open>
  Here the literal after the greedy \<^verbatim>\<open>\s*\<close> is a line feed, which is white space itself,
  so the repetition may have to give characters back. The matcher tries the candidates
  from the longest down; the first success is at the last line feed of the run, and if
  the closing fence is not found from there it is not found from any earlier line feed.
\<close>

definition after_last_LF :: "jsstring \<Rightarrow> nat" where
  "after_last_LF xs = length xs - length (takeWhile (\<lambda>c. c \<noteq> LF) (rev xs))"

lemma after_last_LF_snoc:
  "after_last_LF (xs @ [x]) = (if x = LF then Suc (length xs) else after_last_LF xs)"
proof -
  have "length (takeWhile (\<lambda>c. c \<noteq> LF) (rev xs)) \<le> length xs"
    using length_takeWhile_le[of _ "rev xs"] by simp
  then show ?thesis by (simp add: after_last_LF_def Suc_diff_le)
qed

lemma after_last_LF_le: "after_last_LF xs \<le> length xs"
  by (simp add: after_last_LF_def)

lemma find_sub_None_back:
  assumes "find_sub p (drop b t) = None" and "a \<le> b"
    and "\<And>i. a \<le> i \<Longrightarrow> i < b \<Longrightarrow> i < length t \<and> \<not> prefix p (drop i t)"
  shows "find_sub p (drop a t) = None"
  using assms(2,3)
proof (induction "b - a" arbitrary: a)
  case 0
  with assms(1) show ?case by simp
next
  case (Suc d)
  then have lt: "a < b" by simp
  from Suc.prems(2)[of a] lt have a: "a < length t" "\<not> prefix p (drop a t)" by simp_all
  from Suc.hyps(2) have "d = b - Suc a" by simp
  from Suc.hyps(1)[OF this] lt Suc.prems(2) have "find_sub p (drop (Suc a) t) = None" by simp
  moreover from a(1) have "drop a t = t ! a # drop (Suc a) t" by (simp add: Cons_nth_drop_Suc)
  ultimately show ?case using a(2) by simp
qed

lemma first_some_fence_candidates:
  fixes t :: jsstring
  defines "ws \<equiv> takeWhile is_space t"
  defines "g \<equiv> \<lambda>l. if prefix [LF] (drop l t)
                     then map_option (\<lambda>n. [l, 1, n, 3]) (find_sub (js ''```'') (drop (Suc l) t))
                     else None"
  assumes "j \<le> length ws"
  shows "first_some g (rev [0..<j]) =
           (if LF \<notin> set (take j ws) then None
            else map_option (\<lambda>n. [after_last_LF (take j ws) - 1, 1, n, 3])
                   (find_sub (js ''```'') (drop (after_last_LF (take j ws)) t)))"
  using assms(3)
proof (induction j)
  case 0
  then show ?case by simp
next
  case (Suc j)
  then have j: "j < length ws" by simp
  then have jt: "j < length t" using length_takeWhile_le[of is_space t] by (simp add: ws_def)
  from j have wj: "ws ! j = t ! j" by (simp add: ws_def takeWhile_nth)
  from j have tk: "take (Suc j) ws = take j ws @ [t ! j]"
    by (simp add: take_Suc_conv_app_nth wj)
  from jt have dj: "drop j t = t ! j # drop (Suc j) t" by (simp add: Cons_nth_drop_Suc)
  have ih: "first_some g (rev [0..<j]) =
           (if LF \<notin> set (take j ws) then None
            else map_option (\<lambda>n. [after_last_LF (take j ws) - 1, 1, n, 3])
                   (find_sub (js ''```'') (drop (after_last_LF (take j ws)) t)))"
    using Suc by simp
  show ?case
  proof (cases "t ! j = LF")
    case False
    then have "g j = None" by (simp add: g_def dj)
    with False ih tk show ?thesis by (simp add: after_last_LF_snoc)
  next
    case True
    then have gj: "g j = map_option (\<lambda>n. [j, 1, n, 3]) (find_sub (js ''```'') (drop (Suc j) t))"
      by (simp add: g_def dj)
    from True tk have al: "after_last_LF (take (Suc j) ws) = Suc j" "LF \<in> set (take (Suc j) ws)"
      using j by (simp_all add: after_last_LF_snoc)
    show ?thesis
    proof (cases "find_sub (js ''```'') (drop (Suc j) t)")
      case (Some n)
      with gj al show ?thesis by simp
    next
      case None
      have "first_some g (rev [0..<j]) = None"
      proof (cases "LF \<in> set (take j ws)")
        case False
        with ih show ?thesis by simp
      next
        case inl: True
        let ?k = "after_last_LF (take j ws)"
        have kj: "?k \<le> j" using after_last_LF_le[of "take j ws"] j by simp
        have "find_sub (js ''```'') (drop ?k t) = None"
        proof (rule find_sub_None_back[OF None])
          show "?k \<le> Suc j" using kj by simp
        next
          fix i assume "?k \<le> i" and i: "i < Suc j"
          with j have il: "i < length ws" by simp
          then have it: "i < length t" using length_takeWhile_le[of is_space t] by (simp add: ws_def)
          from il have "is_space (ws ! i)" using nth_mem set_takeWhileD unfolding ws_def by fastforce
          with il have sp: "is_space (t ! i)" by (simp add: ws_def takeWhile_nth)
          from it have "drop i t = t ! i # drop (Suc i) t" by (simp add: Cons_nth_drop_Suc)
          moreover have "\<not> is_space 0x60" by (simp add: is_space_def)
          ultimately have "\<not> prefix (js ''```'') (drop i t)" using sp by (auto simp: js_def)
          with it show "i < length t \<and> \<not> prefix (js ''```'') (drop i t)" by simp
        qed
        with ih inl show ?thesis by simp
      qed
      with gj None al show ?thesis by simp
    qed
  qed
qed

lemma length_takeWhile_lt: "x \<in> set xs \<Longrightarrow> \<not> P x \<Longrightarrow> length (takeWhile P xs) < length xs"
  by (induction xs) auto

lemma not_LF_after_run: "\<not> prefix [LF] (drop (length (takeWhile is_space t)) t)"
proof -
  have "is_space LF" by (simp add: is_space_def LF_def)
  moreover have "drop (length (takeWhile is_space t)) t = dropWhile is_space t"
    by (simp add: dropWhile_eq_drop)
  ultimately show ?thesis
    using hd_dropWhile[of is_space t] by (cases "dropWhile is_space t") auto
qed

theorem fence_at_backtrack:
  "fence_at s =
     (case backtrack fence_pattern s of
        Some [a, b, c, d, e] \<Rightarrow> Some (take (a + b + c + d + e) s, take d (drop (a + b + c) s))
      | _ \<Rightarrow> None)"
proof -
  let ?R = "[Lazy (\<lambda>c. True), Str (js ''```'')]"
  have l3: "length (js ''```'') = 3" by simp
  have l10: "length (js ''```mermaid'') = 10" by simp
  have bR: "backtrack ?R t = map_option (\<lambda>n. [n, 3]) (find_sub (js ''```'') t)" for t
    by (simp only: backtrack_Lazy_last l3)
  have bLF: "(\<lambda>l. map_option ((#) l) (backtrack (Str [LF] # ?R) (drop l t)))
           = (\<lambda>l. if prefix [LF] (drop l t)
                   then map_option (\<lambda>n. [l, 1, n, 3]) (find_sub (js ''```'') (drop (Suc l) t))
                   else None)" for t
    by (auto simp: backtrack_Str bR fun_eq_iff option.map_comp comp_def)
  have b1: "backtrack fence_pattern t =
              (if prefix (js ''```mermaid'') t
               then map_option ((#) 10) (backtrack (Greedy is_space 0 # Str [LF] # ?R) (drop 10 t))
               else None)" for t
    by (simp only: fence_pattern_def backtrack_Str l10)
  define rest where "rest = drop 10 s"
  define ws where "ws = takeWhile is_space rest"
  define k where "k = length ws - length (takeWhile (\<lambda>c. c \<noteq> LF) (rev ws))"
  define body_on where "body_on = drop k rest"
  have k: "k = after_last_LF ws" by (simp add: k_def after_last_LF_def)
  have g: "backtrack (Greedy is_space 0 # Str [LF] # ?R) rest =
             (if LF \<notin> set ws then None
              else map_option (\<lambda>n. [k - 1, 1, n, 3]) (find_sub (js ''```'') body_on))"
  proof -
    let ?g = "\<lambda>l. if prefix [LF] (drop l rest)
                   then map_option (\<lambda>n. [l, 1, n, 3]) (find_sub (js ''```'') (drop (Suc l) rest))
                   else None"
    have "backtrack (Greedy is_space 0 # Str [LF] # ?R) rest
            = first_some (\<lambda>l. map_option ((#) l) (backtrack (Str [LF] # ?R) (drop l rest)))
                (rev [0..<Suc (length ws)])"
      by (subst backtrack_Cons) (simp only: atom_lengths.simps ws_def)
    also have "\<dots> = first_some ?g (rev [0..<Suc (length ws)])"
      by (simp only: bLF)
    also have "\<dots> = first_some ?g (rev [0..<length ws])"
      using not_LF_after_run[of rest] by (simp add: ws_def)
    also have "\<dots> = (if LF \<notin> set ws then None
              else map_option (\<lambda>n. [k - 1, 1, n, 3]) (find_sub (js ''```'') body_on))"
      using first_some_fence_candidates[of "length ws" rest]
      by (simp add: ws_def k body_on_def)
    finally show ?thesis .
  qed
  have kpos: "LF \<in> set ws \<Longrightarrow> 0 < k"
  proof -
    assume "LF \<in> set ws"
    then have "LF \<in> set (rev ws)" by simp
    then have "length (takeWhile (\<lambda>c. c \<noteq> LF) (rev ws)) < length (rev ws)"
      by (rule length_takeWhile_lt) simp
    then show "0 < k" by (simp add: k_def)
  qed
  have lhs: "fence_at s =
     (if \<not> prefix (js ''```mermaid'') s then None
      else if LF \<notin> set ws then None
      else case find_sub (js ''```'') body_on of
             None \<Rightarrow> None
           | Some n \<Rightarrow> Some (take (10 + k + n + 3) s, take n body_on))"
    unfolding fence_at_def rest_def ws_def k_def body_on_def Let_def by (rule refl)
  have rhs: "backtrack fence_pattern s =
     (if \<not> prefix (js ''```mermaid'') s then None
      else if LF \<notin> set ws then None
      else case find_sub (js ''```'') body_on of
             None \<Rightarrow> None
           | Some n \<Rightarrow> Some [10, k - 1, 1, n, 3])"
    unfolding b1 using g by (auto simp: rest_def split: option.splits)
  have d: "0 < k \<Longrightarrow> drop (10 + (k - 1) + 1) s = body_on"
    by (simp add: body_on_def rest_def add.commute)
  show ?thesis
    unfolding lhs rhs using kpos d by (auto split: option.splits)
qed

text \<open>
  An example with white space to give back: after \<^verbatim>\<open>```mermaid\<close> come a space and two line
  feeds; \<^verbatim>\<open>\s*\<close> keeps the space and the first line feed, \<^verbatim>\<open>\n\<close> is the second, and the
  body is \<^verbatim>\<open>x\<close>.
\<close>

lemma backtrack_fence_example:
  "backtrack fence_pattern (js ''```mermaid \<newline>\<newline>x```'') = Some [10, 2, 1, 1, 3]
   \<and> fence_at (js ''```mermaid \<newline>\<newline>x```'') = Some (js ''```mermaid \<newline>\<newline>x```'', js ''x'')"
  by code_simp

end
